theory Spec2Isabelle
  imports Main "HOL-Library.Sublist" "HOL-Library.Multiset"
begin

section \<open>Data model\<close>

text \<open>
  The script \<^verbatim>\<open>scripts/dependency-miner.py\<close> walks a commit history, extracts the
  dependency declarations of every modified \<^verbatim>\<open>pom.xml\<close> before and after the commit,
  compares the two snapshots and accumulates one row per difference.

  Python strings are modelled as \<^typ>\<open>string\<close>; a value that may be \<^verbatim>\<open>None\<close> is an
  \<^typ>\<open>'a option\<close>. An exception is a value of type \<open>error\<close> on the left of a sum.
\<close>

datatype error = XMLSyntaxError | AttributeError | KeyError

text \<open>
  A dependency snapshot is the Python \<^verbatim>\<open>dict\<close> built by the extractors: keys
  \<^verbatim>\<open>"groupId:artifactId"\<close>, values the version string or \<^verbatim>\<open>None\<close>. Python dictionaries
  keep insertion order, and a store to an existing key keeps that key's position; the
  association list with \<open>dict_store\<close> below does the same.
\<close>

type_synonym snapshot = "(string \<times> string option) list"

fun dict_store :: "'k \<Rightarrow> 'v \<Rightarrow> ('k \<times> 'v) list \<Rightarrow> ('k \<times> 'v) list" where
  "dict_store k v [] = [(k, v)]"
| "dict_store k v (p # ps) = (if fst p = k then (k, v) # ps else p # dict_store k v ps)"

definition dict_keys :: "('k \<times> 'v) list \<Rightarrow> 'k list" where
  "dict_keys d = map fst d"

definition dict_get :: "('k \<times> 'v) list \<Rightarrow> 'k \<Rightarrow> error + 'v" where
  "dict_get d k = (case map_of d k of None \<Rightarrow> Inl KeyError | Some v \<Rightarrow> Inr v)"

text \<open>
  The element tree that \<^verbatim>\<open>lxml.etree\<close> hands to the script. Of an element the script reads
  its tag (in lxml's notation, \<^verbatim>\<open>{namespace-uri}local\<close> for a namespaced element), the
  namespace map in scope (prefix to URI, the default namespace under the prefix \<^verbatim>\<open>None\<close>),
  the text before its first child (\<^verbatim>\<open>None\<close> when there is none) and its child elements in
  document order (the text is the selector \<open>etext\<close>). \<open>tail\<close> is the text after the
  element's end tag, which lxml keeps with the element; the script never reads it.
  Comments and processing instructions never match a tag path and are left out of
  \<open>children\<close>.
\<close>

datatype element = Element
  (tag: string)
  (nsmap: "(string option \<times> string) list")
  (etext: "string option")
  (children: "element list")
  (tail: "string option")

subsection \<open>String helpers\<close>

text \<open>
  \<^verbatim>\<open>str.strip()\<close> removes leading and trailing whitespace. On the code points that
  \<^typ>\<open>char\<close> has (0 to 255) Python's \<^verbatim>\<open>str.isspace\<close> holds for 9 to 13, 28 to 32, 133
  and 160.
\<close>

definition isspace :: "char \<Rightarrow> bool" where
  "isspace c = (of_char c \<in> {9, 10, 11, 12, 13, 28, 29, 30, 31, 32, 133, 160 :: nat})"

definition strip :: "string \<Rightarrow> string" where
  "strip s = rev (dropWhile isspace (rev (dropWhile isspace s)))"

section \<open>The structural extractor\<close>

text \<open>
  \<^verbatim>\<open>tree.findall(".//dependency")\<close>: every descendant of the context element (the element
  itself excluded) with the given tag, in document order. \<^verbatim>\<open>dep.find("groupId")\<close>: the
  first child with the given tag, or \<^verbatim>\<open>None\<close>.
\<close>

fun descendants :: "element \<Rightarrow> element list" where
  "descendants (Element t ns tx cs ta) = concat (map (\<lambda>c. c # descendants c) cs)"

definition findall :: "string \<Rightarrow> element \<Rightarrow> element list" where
  "findall path e = filter (\<lambda>d. tag d = path) (descendants e)"

definition find_child :: "string \<Rightarrow> element \<Rightarrow> element option" where
  "find_child path e = List.find (\<lambda>c. tag c = path) (children e)"

text \<open>
  With a non-empty default namespace the script searches under the prefix \<^verbatim>\<open>m\<close> bound to
  it, which ElementPath resolves to the tag \<^verbatim>\<open>{uri}name\<close>; otherwise it searches the bare
  name.
\<close>

definition qualify :: "string option \<Rightarrow> string \<Rightarrow> string" where
  "qualify namespace name =
     (case namespace of
        None \<Rightarrow> name
      | Some uri \<Rightarrow> if uri = [] then name else ''{'' @ uri @ ''}'' @ name)"

text \<open>
  One pass of the loop body (lines 53 to 65): \<open>Inr None\<close> is the \<^verbatim>\<open>continue\<close>,
  \<open>Inr (Some (key, version_text))\<close> the store, \<open>Inl AttributeError\<close> the failure of
  \<^verbatim>\<open>.strip()\<close> on a \<^verbatim>\<open>None\<close> text. The three \<^verbatim>\<open>.text.strip()\<close> calls run in the
  source's order: group, artifact, version.
\<close>

definition strip_text :: "element \<Rightarrow> error + string" where
  "strip_text e = (case etext e of None \<Rightarrow> Inl AttributeError | Some s \<Rightarrow> Inr (strip s))"

definition pom_entry :: "string option \<Rightarrow> element \<Rightarrow> error + (string \<times> string option) option" where
  "pom_entry namespace dep =
     (let group = find_child (qualify namespace ''groupId'') dep;
          artifact = find_child (qualify namespace ''artifactId'') dep;
          version = find_child (qualify namespace ''version'') dep
      in case group of
           None \<Rightarrow> Inr None
         | Some g \<Rightarrow>
        (case artifact of
           None \<Rightarrow> Inr None
         | Some a \<Rightarrow>
        (case strip_text g of
           Inl err \<Rightarrow> Inl err
         | Inr group_id \<Rightarrow>
        (case strip_text a of
           Inl err \<Rightarrow> Inl err
         | Inr artifact_id \<Rightarrow>
        (case version of
           None \<Rightarrow> Inr (Some (group_id @ '':'' @ artifact_id, None))
         | Some v \<Rightarrow>
        (case strip_text v of
           Inl err \<Rightarrow> Inl err
         | Inr version_text \<Rightarrow> Inr (Some (group_id @ '':'' @ artifact_id, Some version_text))))))))"

fun pom_loop :: "string option \<Rightarrow> element list \<Rightarrow> snapshot \<Rightarrow> error + snapshot" where
  "pom_loop namespace [] dependencies = Inr dependencies"
| "pom_loop namespace (dep # deps) dependencies =
     (case pom_entry namespace dep of
        Inl err \<Rightarrow> Inl err
      | Inr None \<Rightarrow> pom_loop namespace deps dependencies
      | Inr (Some (key, version_text)) \<Rightarrow>
          pom_loop namespace deps (dict_store key version_text dependencies))"

text \<open>
  \<open>fromstring\<close> stands for \<^verbatim>\<open>etree.fromstring(pom_xml_text.encode())\<close>, the parser of the
  lxml library: \<open>None\<close> is its \<^verbatim>\<open>XMLSyntaxError\<close>. The parser is no code of this
  repository and stays a parameter.
\<close>

definition parse_pom_dependencies ::
  "(string \<Rightarrow> element option) \<Rightarrow> string option \<Rightarrow> error + snapshot" where
  "parse_pom_dependencies fromstring pom_xml_text =
     (case pom_xml_text of
        None \<Rightarrow> Inr []
      | Some t \<Rightarrow>
          if t = [] then Inr []
          else (case fromstring t of
                  None \<Rightarrow> Inl XMLSyntaxError
                | Some tree \<Rightarrow>
                    (let namespace = map_of (nsmap tree) None
                     in pom_loop namespace (findall (qualify namespace ''dependency'') tree) [])))"

section \<open>The pattern-based extractor\<close>

text \<open>
  \<^verbatim>\<open>re.findall(r"<dependency>(.*?)</dependency>", text, re.DOTALL)\<close> as a scanner from
  left to right. In state \<open>None\<close> it looks for the next position where the opening tag
  starts; in state \<open>Some acc\<close> the opening tag has matched and the lazy group, \<open>acc\<close> in
  reverse, grows one character at a time (any character, with \<^verbatim>\<open>DOTALL\<close>) until the closing
  tag starts. The search resumes behind the closing tag. When the text ends inside a group
  there is no match from that opening tag, and none from a later one either, since a
  closing tag behind a later one would have closed this one.
\<close>

fun findall_scan :: "string option \<Rightarrow> string \<Rightarrow> string list" where
  "findall_scan None [] = []"
| "findall_scan None (c # cs) =
     (if prefix ''<dependency>'' (c # cs) then findall_scan (Some []) (drop 11 cs)
      else findall_scan None cs)"
| "findall_scan (Some acc) [] = []"
| "findall_scan (Some acc) (c # cs) =
     (if prefix ''</dependency>'' (c # cs) then rev acc # findall_scan None (drop 12 cs)
      else findall_scan (Some (c # acc)) cs)"

definition re_findall_dependency :: "string \<Rightarrow> string list" where
  "re_findall_dependency s = findall_scan None s"

text \<open>
  \<^verbatim>\<open>re.search(r"<name>([^<]+)</name>", block)\<close> for a literal \<open>name\<close>, giving
  \<^verbatim>\<open>group(1)\<close> of the leftmost match. At one position the pattern matches when the opening
  tag is there, at least one character other than \<^verbatim>\<open><\<close> follows, and the closing tag
  stands right behind the longest run of such characters: the greedy group cannot give
  characters back, since the closing tag starts with \<^verbatim>\<open><\<close>.
\<close>

definition match_elem :: "string \<Rightarrow> string \<Rightarrow> string option" where
  "match_elem name s =
     (if prefix (''<'' @ name @ ''>'') s
      then (let r = drop (length name + 2) s;
                run = takeWhile (\<lambda>c. c \<noteq> CHR ''<'') r;
                rest = dropWhile (\<lambda>c. c \<noteq> CHR ''<'') r
            in if run \<noteq> [] \<and> prefix (''</'' @ name @ ''>'') rest then Some run else None)
      else None)"

fun re_search_elem :: "string \<Rightarrow> string \<Rightarrow> string option" where
  "re_search_elem name [] = None"
| "re_search_elem name (c # cs) =
     (case match_elem name (c # cs) of
        Some g \<Rightarrow> Some g
      | None \<Rightarrow> re_search_elem name cs)"

fun blocks_loop :: "string list \<Rightarrow> snapshot \<Rightarrow> snapshot" where
  "blocks_loop [] deps = deps"
| "blocks_loop (block # blocks) deps =
     (case re_search_elem ''groupId'' block of
        None \<Rightarrow> blocks_loop blocks deps
      | Some g \<Rightarrow>
     (case re_search_elem ''artifactId'' block of
        None \<Rightarrow> blocks_loop blocks deps
      | Some a \<Rightarrow>
     (case re_search_elem ''version'' block of
        None \<Rightarrow> blocks_loop blocks deps
      | Some v \<Rightarrow>
          blocks_loop blocks (dict_store (strip g @ '':'' @ strip a) (Some (strip v)) deps))))"

definition parse_dependency_blocks :: "string option \<Rightarrow> snapshot" where
  "parse_dependency_blocks pom_xml_text =
     (case pom_xml_text of
        None \<Rightarrow> []
      | Some t \<Rightarrow>
          if t = [] \<or> strip t = [] then []
          else blocks_loop (re_findall_dependency t) [])"

section \<open>The traversal driver\<close>

text \<open>
  What the commit provider (PyDriller) yields: per commit a hash, the committer date (held
  here as the text \<^verbatim>\<open>committer_date.isoformat()\<close> gives), the author's name and the
  modified files, each with its file name and its content before and after the commit
  (\<^verbatim>\<open>None\<close> for a file that did not exist on that side).
\<close>

record modified_file =
  filename :: string
  source_code_before :: "string option"
  source_code :: "string option"

record commit =
  hash :: string
  committer_date :: string
  author_name :: string
  modified_files :: "modified_file list"

record miner_state =
  commits_with_changes :: "string set"
  rows :: "string list list"

text \<open>
  \<^verbatim>\<open>rows.append([...]); commits_with_changes.add(commit.hash)\<close>, the body shared by the
  three loops.
\<close>

definition record_change :: "commit \<Rightarrow> string \<Rightarrow> string \<Rightarrow> miner_state \<Rightarrow> miner_state" where
  "record_change c dep change_type st =
     st\<lparr>rows := rows st @ [[hash c, committer_date c, author_name c, dep, change_type]],
        commits_with_changes := insert (hash c) (commits_with_changes st)\<rparr>"

text \<open>
  \<^verbatim>\<open>a.keys() - b.keys()\<close> and \<^verbatim>\<open>a.keys() & b.keys()\<close> build a Python \<^verbatim>\<open>set\<close>. The lists
  below hold its elements once each; the order in which a \<^verbatim>\<open>for\<close> loop visits a set is
  the set's hash order, which Python does not fix. It is the parameter \<open>set_order\<close> of the
  driver: a function that rearranges such a list.
\<close>

definition keys_minus :: "snapshot \<Rightarrow> snapshot \<Rightarrow> string list" where
  "keys_minus a b = remdups (filter (\<lambda>k. k \<notin> set (dict_keys b)) (dict_keys a))"

definition keys_inter :: "snapshot \<Rightarrow> snapshot \<Rightarrow> string list" where
  "keys_inter a b = remdups (filter (\<lambda>k. k \<in> set (dict_keys b)) (dict_keys a))"

text \<open>\<^verbatim>\<open>f"{v}"\<close> of a version value: \<^verbatim>\<open>None\<close> prints as the word \<^verbatim>\<open>None\<close>.\<close>

definition py_str :: "string option \<Rightarrow> string" where
  "py_str v = (case v of None \<Rightarrow> ''None'' | Some s \<Rightarrow> s)"

fun changed_loop ::
  "commit \<Rightarrow> snapshot \<Rightarrow> snapshot \<Rightarrow> string list \<Rightarrow> miner_state \<Rightarrow> error + miner_state" where
  "changed_loop c old_deps new_deps [] st = Inr st"
| "changed_loop c old_deps new_deps (dep # deps) st =
     (case dict_get old_deps dep of
        Inl err \<Rightarrow> Inl err
      | Inr old_v \<Rightarrow>
     (case dict_get new_deps dep of
        Inl err \<Rightarrow> Inl err
      | Inr new_v \<Rightarrow>
          changed_loop c old_deps new_deps deps
            (if old_v \<noteq> new_v
             then record_change c dep (''changed from '' @ py_str old_v @ '' to '' @ py_str new_v) st
             else st)))"

text \<open>The comparison of one pair of snapshots (lines 117 to 150).\<close>

definition diff_snapshots ::
  "(string list \<Rightarrow> string list) \<Rightarrow> commit \<Rightarrow> snapshot \<Rightarrow> snapshot \<Rightarrow> miner_state
     \<Rightarrow> error + miner_state" where
  "diff_snapshots set_order c old_deps new_deps st =
     (let st1 = fold (\<lambda>dep. record_change c dep ''added'') (set_order (keys_minus new_deps old_deps)) st;
          st2 = fold (\<lambda>dep. record_change c dep ''removed'') (set_order (keys_minus old_deps new_deps)) st1
      in changed_loop c old_deps new_deps (set_order (keys_inter old_deps new_deps)) st2)"

definition mine_file ::
  "(string list \<Rightarrow> string list) \<Rightarrow> (string \<Rightarrow> element option) \<Rightarrow> commit \<Rightarrow> modified_file
     \<Rightarrow> miner_state \<Rightarrow> error + miner_state" where
  "mine_file set_order fromstring c m st =
     (if filename m \<noteq> ''pom.xml'' then Inr st
      else (case parse_pom_dependencies fromstring (source_code_before m) of
              Inl err \<Rightarrow> Inl err
            | Inr old_deps \<Rightarrow>
           (case parse_pom_dependencies fromstring (source_code m) of
              Inl err \<Rightarrow> Inl err
            | Inr new_deps \<Rightarrow> diff_snapshots set_order c old_deps new_deps st)))"

fun files_loop ::
  "(string list \<Rightarrow> string list) \<Rightarrow> (string \<Rightarrow> element option) \<Rightarrow> commit \<Rightarrow> modified_file list
     \<Rightarrow> miner_state \<Rightarrow> error + miner_state" where
  "files_loop set_order fromstring c [] st = Inr st"
| "files_loop set_order fromstring c (m # ms) st =
     (case mine_file set_order fromstring c m st of
        Inl err \<Rightarrow> Inl err
      | Inr st' \<Rightarrow> files_loop set_order fromstring c ms st')"

definition mine_commit ::
  "(string list \<Rightarrow> string list) \<Rightarrow> (string \<Rightarrow> element option) \<Rightarrow> commit \<Rightarrow> miner_state
     \<Rightarrow> error + miner_state" where
  "mine_commit set_order fromstring c st = files_loop set_order fromstring c (modified_files c) st"

fun commits_loop ::
  "(string list \<Rightarrow> string list) \<Rightarrow> (string \<Rightarrow> element option) \<Rightarrow> commit list
     \<Rightarrow> miner_state \<Rightarrow> error + miner_state" where
  "commits_loop set_order fromstring [] st = Inr st"
| "commits_loop set_order fromstring (c # cs) st =
     (case mine_commit set_order fromstring c st of
        Inl err \<Rightarrow> Inl err
      | Inr st' \<Rightarrow> commits_loop set_order fromstring cs st')"

section \<open>The report\<close>

text \<open>
  \<^verbatim>\<open>csv.writer(f)\<close> with the default dialect: fields joined by a comma, a field holding a
  comma, a double quote, a carriage return or a line feed is put in double quotes with
  every double quote doubled, and each row ends with carriage return and line feed. (A row
  of one empty field is written as two double quotes; every row here has five fields.)
\<close>

definition csv_field :: "string \<Rightarrow> string" where
  "csv_field f =
     (if \<exists>c \<in> set f. c \<in> {CHR '','', CHR 0x22, CHR 0x0D, CHR 0x0A}
      then [CHR 0x22] @ concat (map (\<lambda>c. if c = CHR 0x22 then [c, c] else [c]) f) @ [CHR 0x22]
      else f)"

fun join_fields :: "string list \<Rightarrow> string" where
  "join_fields [] = []"
| "join_fields [f] = f"
| "join_fields (f # g # fs) = f @ '','' @ join_fields (g # fs)"

definition writerow :: "string list \<Rightarrow> string" where
  "writerow row = join_fields (map csv_field row) @ [CHR 0x0D, CHR 0x0A]"

definition header :: "string list" where
  "header = [''commit_hash'', ''commit_date'', ''commit_author'', ''dependency'', ''change_type'']"

text \<open>
  What a completed run leaves behind: the file it opened (name, encoding, the text written)
  and the number it prints as \<^verbatim>\<open>Number of commits with dependency changes\<close>.
\<close>

record report =
  output_filename :: string
  encoding :: string
  written :: string
  printed_count :: nat

text \<open>
  \<open>traverse_commits\<close> stands for \<^verbatim>\<open>Repository(repo_url).traverse_commits()\<close>, the commits
  the provider yields for a repository URL. A run that an exception aborts writes no file.
\<close>

definition mine_repository ::
  "(string list \<Rightarrow> string list) \<Rightarrow> (string \<Rightarrow> element option) \<Rightarrow> (string \<Rightarrow> commit list)
     \<Rightarrow> string \<Rightarrow> string \<Rightarrow> error + report" where
  "mine_repository set_order fromstring traverse_commits owner repo =
     (let repo_url = ''https://github.com/'' @ owner @ ''/'' @ repo
      in case commits_loop set_order fromstring (traverse_commits repo_url)
                \<lparr>commits_with_changes = {}, rows = []\<rparr> of
           Inl err \<Rightarrow> Inl err
         | Inr st \<Rightarrow>
             Inr \<lparr>output_filename = owner @ ''_'' @ repo @ ''_dependency_commits.csv'',
                  encoding = ''utf-8'',
                  written = concat (map writerow (header # rows st)),
                  printed_count = card (commits_with_changes st)\<rparr>)"

section \<open>Notions used to state the properties\<close>

text \<open>
  The stores the structural loop performs on a list of dependency elements, in order, and
  the dictionary that a sequence of stores leaves behind.
\<close>

definition entries_of :: "string option \<Rightarrow> element list \<Rightarrow> (string \<times> string option) list" where
  "entries_of namespace deps =
     concat (map (\<lambda>dep. case pom_entry namespace dep of Inr (Some kv) \<Rightarrow> [kv] | _ \<Rightarrow> []) deps)"

definition store_all :: "('k \<times> 'v) list \<Rightarrow> ('k \<times> 'v) list \<Rightarrow> ('k \<times> 'v) list" where
  "store_all es d = fold (\<lambda>(k, v). dict_store k v) es d"

text \<open>
  \<open>emitted c st st' new\<close>: from \<open>st\<close> to \<open>st'\<close> the rows \<open>new\<close> were appended, all of them
  rows of commit \<open>c\<close>, and the commit's hash entered the set of commit identifiers when
  \<open>new\<close> is not empty. \<open>changed_rows\<close> and \<open>diff_rows\<close> are the rows that the third loop
  and the whole comparison append.
\<close>

definition emitted :: "commit \<Rightarrow> miner_state \<Rightarrow> miner_state \<Rightarrow> string list list \<Rightarrow> bool" where
  "emitted c st st' new =
     (rows st' = rows st @ new \<and>
      (\<forall>r \<in> set new. \<exists>dep change. r = [hash c, committer_date c, author_name c, dep, change]) \<and>
      commits_with_changes st' =
        (if new = [] then commits_with_changes st else insert (hash c) (commits_with_changes st)))"

definition changed_rows :: "commit \<Rightarrow> snapshot \<Rightarrow> snapshot \<Rightarrow> string list \<Rightarrow> string list list" where
  "changed_rows c old_deps new_deps deps =
     concat (map (\<lambda>dep. case (map_of old_deps dep, map_of new_deps dep) of
                    (Some old_v, Some new_v) \<Rightarrow>
                      if old_v \<noteq> new_v
                      then [[hash c, committer_date c, author_name c, dep,
                             ''changed from '' @ py_str old_v @ '' to '' @ py_str new_v]]
                      else []
                  | _ \<Rightarrow> []) deps)"

definition diff_rows ::
  "(string list \<Rightarrow> string list) \<Rightarrow> commit \<Rightarrow> snapshot \<Rightarrow> snapshot \<Rightarrow> string list list" where
  "diff_rows set_order c old_deps new_deps =
     map (\<lambda>dep. [hash c, committer_date c, author_name c, dep, ''added''])
       (set_order (keys_minus new_deps old_deps)) @
     map (\<lambda>dep. [hash c, committer_date c, author_name c, dep, ''removed''])
       (set_order (keys_minus old_deps new_deps)) @
     changed_rows c old_deps new_deps (set_order (keys_inter old_deps new_deps))"

text \<open>
  To compare the two extractors, the text of a descriptor has to be related to the tree the
  parser builds from it. \<open>markup\<close> is a document as it is written: an element with its
  name, whatever else stands in its start tag (attributes and namespace declarations, as
  text), the text before its first child, its children and the text behind its end tag;
  or an empty-element tag. \<open>render\<close> is the text of such a document, \<open>inner\<close> what stands
  between an element's start and end tag, \<open>written_descendants\<close> the elements inside an
  element in document order.
\<close>

datatype markup =
    Markup (mname: string) (mextra: string) (mtext: "string option") (mkids: "markup list")
      (mtail: "string option")
  | EmptyTag (mname: string) (mextra: string) (mtail: "string option")
where
  "mtext (EmptyTag n x ta) = None"
| "mkids (EmptyTag n x ta) = []"

definition opt_text :: "string option \<Rightarrow> string" where
  "opt_text s = (case s of None \<Rightarrow> [] | Some x \<Rightarrow> x)"

fun render :: "markup \<Rightarrow> string" where
  "render (Markup n x tx ks ta) =
     ''<'' @ n @ x @ ''>'' @ opt_text tx @ concat (map render ks) @ ''</'' @ n @ ''>'' @ opt_text ta"
| "render (EmptyTag n x ta) = ''<'' @ n @ x @ ''/>'' @ opt_text ta"

definition inner :: "markup \<Rightarrow> string" where
  "inner m = opt_text (mtext m) @ concat (map render (mkids m))"

fun written_descendants :: "markup \<Rightarrow> markup list" where
  "written_descendants (Markup n x tx ks ta) = concat (map (\<lambda>k. k # written_descendants k) ks)"
| "written_descendants (EmptyTag n x ta) = []"

text \<open>
  What is asked of the written form. \<open>name_ok\<close>: a name holds none of \<^verbatim>\<open>< > / ? !\<close> and no
  white space. \<open>extra_ok\<close>: the rest of a start tag holds no \<^verbatim>\<open><\<close> and is empty or begins
  with white space. \<open>misc_ok\<close>: in text between tags every \<^verbatim>\<open><\<close> is followed by \<^verbatim>\<open>?\<close> or
  \<^verbatim>\<open>!\<close>, so that the text may hold comments, processing instructions, a document type or
  CDATA sections, as long as these hold no tag themselves. \<open>well_written\<close>: all of this
  throughout a document.
\<close>

definition name_ok :: "string \<Rightarrow> bool" where
  "name_ok n = (\<forall>c \<in> set n. c \<notin> {CHR ''<'', CHR ''>'', CHR ''/'', CHR ''?'', CHR ''!''} \<and> \<not> isspace c)"

definition extra_ok :: "string \<Rightarrow> bool" where
  "extra_ok x = (CHR ''<'' \<notin> set x \<and> (x = [] \<or> isspace (hd x)))"

fun misc_ok :: "string \<Rightarrow> bool" where
  "misc_ok [] = True"
| "misc_ok [c] = (c \<noteq> CHR ''<'')"
| "misc_ok (c # d # s) = ((c = CHR ''<'' \<longrightarrow> d = CHR ''?'' \<or> d = CHR ''!'') \<and> misc_ok (d # s))"

fun well_written :: "markup \<Rightarrow> bool" where
  "well_written (Markup n x tx ks ta) =
     (name_ok n \<and> extra_ok x \<and> misc_ok (opt_text tx) \<and> misc_ok (opt_text ta) \<and>
      (\<forall>k \<in> set ks. well_written k))"
| "well_written (EmptyTag n x ta) = (name_ok n \<and> extra_ok x \<and> misc_ok (opt_text ta))"

text \<open>
  \<open>dep_free\<close>: no element of the subtree is called \<^verbatim>\<open>dependency\<close>. \<open>entry_shape\<close>: a
  dependency element written as \<^verbatim>\<open><dependency>\<close> without attributes that contains no other
  dependency element. \<open>simple_leaf\<close>: an element written as \<^verbatim>\<open><name>text</name>\<close> with
  non-empty text free of \<^verbatim>\<open><\<close> and \<^verbatim>\<open>&\<close>. \<open>field_ok name d\<close>: the first element called
  \<open>name\<close> inside \<open>d\<close>, in document order, is the first child of \<open>d\<close> with that name and is
  a \<open>simple_leaf\<close>; \<open>field_absent name d\<close>: no element inside \<open>d\<close> has that name.
  \<open>entry_ok\<close>: an \<open>entry_shape\<close> in which each of group identifier, artifact identifier
  and version is \<open>field_ok\<close> or \<open>field_absent\<close>. \<open>descriptor_ok\<close>: a well written
  document whose root is no dependency element and whose dependency elements are all
  \<open>entry_ok\<close>.
\<close>

definition dep_free :: "markup \<Rightarrow> bool" where
  "dep_free m = (\<forall>k \<in> set (m # written_descendants m). mname k \<noteq> ''dependency'')"

definition entry_shape :: "markup \<Rightarrow> bool" where
  "entry_shape d =
     (case d of
        Markup n x tx ks ta \<Rightarrow> x = [] \<and> (\<forall>k \<in> set ks. dep_free k)
      | EmptyTag n x ta \<Rightarrow> False)"

definition entries_flat :: "markup \<Rightarrow> bool" where
  "entries_flat m =
     (\<forall>d \<in> set (m # written_descendants m). mname d = ''dependency'' \<longrightarrow> entry_shape d)"

definition plain_text :: "string \<Rightarrow> bool" where
  "plain_text s = (s \<noteq> [] \<and> CHR ''<'' \<notin> set s \<and> CHR ''&'' \<notin> set s)"

definition simple_leaf :: "markup \<Rightarrow> bool" where
  "simple_leaf m =
     (case m of
        Markup n x tx ks ta \<Rightarrow>
          x = [] \<and> ks = [] \<and> (case tx of None \<Rightarrow> False | Some s \<Rightarrow> plain_text s)
      | EmptyTag n x ta \<Rightarrow> False)"

definition field_ok :: "string \<Rightarrow> markup \<Rightarrow> bool" where
  "field_ok name d =
     (case List.find (\<lambda>k. mname k = name) (written_descendants d) of
        None \<Rightarrow> False
      | Some k \<Rightarrow> List.find (\<lambda>k. mname k = name) (mkids d) = Some k \<and> simple_leaf k)"

definition field_absent :: "string \<Rightarrow> markup \<Rightarrow> bool" where
  "field_absent name d = (\<forall>k \<in> set (written_descendants d). mname k \<noteq> name)"

definition entry_ok :: "markup \<Rightarrow> bool" where
  "entry_ok d =
     (entry_shape d \<and>
      (\<forall>name \<in> set [''groupId'', ''artifactId'', ''version'']. field_ok name d \<or> field_absent name d))"

definition descriptor_ok :: "markup \<Rightarrow> bool" where
  "descriptor_ok m =
     (well_written m \<and> mname m \<noteq> ''dependency'' \<and>
      (\<forall>d \<in> set (written_descendants m). mname d = ''dependency'' \<longrightarrow> entry_ok d))"

text \<open>
  \<open>reads_as namespace m e\<close>: the tree \<open>e\<close> has the elements of the written document \<open>m\<close>,
  each under its name qualified by the default namespace, with its children in the same
  order, and an element written with plain text only has that text. This is what lxml
  builds for a document whose elements all stand in the default namespace (or in none);
  attributes, tails, comments and the text of other elements are left open.
\<close>

fun reads_as :: "string option \<Rightarrow> markup \<Rightarrow> element \<Rightarrow> bool" where
  "reads_as ns (Markup n x tx ks ta) e =
     (tag e = qualify ns n \<and> list_all2 (reads_as ns) ks (children e) \<and>
      (ks = [] \<longrightarrow> (case tx of None \<Rightarrow> True | Some s \<Rightarrow> plain_text s \<longrightarrow> etext e = Some s)))"
| "reads_as ns (EmptyTag n x ta) e = (tag e = qualify ns n \<and> children e = [])"

text \<open>Builders for the example documents that the instances below run on.\<close>

definition leaf :: "string \<Rightarrow> string option \<Rightarrow> element" where
  "leaf name s = Element name [] s [] None"

definition dependency_elem :: "element list \<Rightarrow> element" where
  "dependency_elem cs = Element ''dependency'' [] None cs None"

definition project_elem :: "element list \<Rightarrow> element" where
  "project_elem deps =
     Element ''project'' [] None [Element ''dependencies'' [] None deps None] None"

text \<open>
  An example history: one commit that changes a \<^verbatim>\<open>pom.xml\<close> (one version changed, one
  entry removed, one entry without version added) and touches a second file, and one commit
  that touches no \<^verbatim>\<open>pom.xml\<close>. \<open>example_parser\<close> maps the two descriptor texts to the
  trees lxml builds for them and rejects every other text.
\<close>

definition example_text_before :: string where
  "example_text_before = ''<project><dependencies><dependency><groupId>g</groupId><artifactId>a</artifactId><version>1.0</version></dependency><dependency><groupId>g</groupId><artifactId>b</artifactId></dependency></dependencies></project>''"

definition example_tree_before :: element where
  "example_tree_before = project_elem
     [dependency_elem [leaf ''groupId'' (Some ''g''), leaf ''artifactId'' (Some ''a''),
                       leaf ''version'' (Some ''1.0'')],
      dependency_elem [leaf ''groupId'' (Some ''g''), leaf ''artifactId'' (Some ''b'')]]"

definition example_text_after :: string where
  "example_text_after = ''<project><dependencies><dependency><groupId>g</groupId><artifactId>a</artifactId><version>2.0</version></dependency><dependency><groupId>g</groupId><artifactId>newlib</artifactId></dependency></dependencies></project>''"

definition example_tree_after :: element where
  "example_tree_after = project_elem
     [dependency_elem [leaf ''groupId'' (Some ''g''), leaf ''artifactId'' (Some ''a''),
                       leaf ''version'' (Some ''2.0'')],
      dependency_elem [leaf ''groupId'' (Some ''g''), leaf ''artifactId'' (Some ''newlib'')]]"

definition example_parser :: "string \<Rightarrow> element option" where
  "example_parser = map_of [(example_text_before, example_tree_before),
                            (example_text_after, example_tree_after)]"

definition example_commit :: commit where
  "example_commit =
     \<lparr>hash = ''h1'', committer_date = ''2024-01-01T00:00:00+00:00'', author_name = ''Ann'',
      modified_files =
        [\<lparr>filename = ''pom.xml'', source_code_before = Some example_text_before,
          source_code = Some example_text_after\<rparr>,
         \<lparr>filename = ''README.md'', source_code_before = None, source_code = Some ''<hello''\<rparr>]\<rparr>"

definition example_other_commit :: commit where
  "example_other_commit =
     \<lparr>hash = ''h2'', committer_date = ''2024-01-02T00:00:00+00:00'', author_name = ''Bob'',
      modified_files =
        [\<lparr>filename = ''module/build.xml'', source_code_before = Some ''<project>'',
          source_code = Some ''<project><dependency>''\<rparr>]\<rparr>"

text \<open>
  A descriptor as Maven projects write it: an XML declaration, a default namespace, an
  entity reference, an empty-element tag, a comment, an attribute, white space around an
  identifier and an entry with exclusions; every entry has a version. \<open>example_pom_tree\<close>
  is the tree lxml builds for it.
\<close>

definition dq :: string where
  "dq = [CHR 0x22]"

definition pom_uri :: string where
  "pom_uri = ''http://maven.apache.org/POM/4.0.0''"

definition example_pom_prolog :: string where
  "example_pom_prolog = ''<?xml version='' @ dq @ ''1.0'' @ dq @ '' encoding='' @ dq @ ''UTF-8'' @ dq @ ''?> ''"

definition written_leaf :: "string \<Rightarrow> string \<Rightarrow> markup" where
  "written_leaf n s = Markup n [] (Some s) [] None"

definition example_pom_markup :: markup where
  "example_pom_markup =
     Markup ''project'' ('' xmlns='' @ dq @ pom_uri @ dq) None
       [written_leaf ''modelVersion'' ''4.0.0'',
        written_leaf ''name'' ''A &amp; B'',
        Markup ''parent'' [] None [EmptyTag ''relativePath'' [] None] None,
        Markup ''dependencies'' [] (Some ''<!-- test -->'')
          [Markup ''dependency'' [] None
             [written_leaf ''groupId'' ''junit'',
              written_leaf ''artifactId'' '' junit '',
              written_leaf ''version'' ''4.13'',
              Markup ''scope'' ('' kind='' @ dq @ ''x>y'' @ dq) (Some ''test'') [] None] None,
           Markup ''dependency'' [] None
             [written_leaf ''groupId'' ''g'',
              written_leaf ''artifactId'' ''a'',
              written_leaf ''version'' ''1.0'',
              Markup ''exclusions'' [] None
                [Markup ''exclusion'' [] None
                   [written_leaf ''groupId'' ''x'', written_leaf ''artifactId'' ''y''] None]
                None] None]
          None] None"

definition example_pom_text :: string where
  "example_pom_text =
     ''<?xml version='' @ dq @ ''1.0'' @ dq @ '' encoding='' @ dq @ ''UTF-8'' @ dq @ ''?> '' @
     ''<project xmlns='' @ dq @ ''http://maven.apache.org/POM/4.0.0'' @ dq @ ''>'' @
     ''<modelVersion>4.0.0</modelVersion><name>A &amp; B</name>'' @
     ''<parent><relativePath/></parent>'' @
     ''<dependencies><!-- test -->'' @
     ''<dependency><groupId>junit</groupId><artifactId> junit </artifactId>'' @
     ''<version>4.13</version><scope kind='' @ dq @ ''x>y'' @ dq @ ''>test</scope></dependency>'' @
     ''<dependency><groupId>g</groupId><artifactId>a</artifactId><version>1.0</version>'' @
     ''<exclusions><exclusion><groupId>x</groupId><artifactId>y</artifactId></exclusion>'' @
     ''</exclusions></dependency></dependencies></project>''"

definition pom_elem :: "string \<Rightarrow> string option \<Rightarrow> element list \<Rightarrow> element" where
  "pom_elem n s cs = Element (''{'' @ pom_uri @ ''}'' @ n) [(None, pom_uri)] s cs None"

definition example_pom_tree :: element where
  "example_pom_tree =
     pom_elem ''project'' None
       [pom_elem ''modelVersion'' (Some ''4.0.0'') [],
        pom_elem ''name'' (Some ''A & B'') [],
        pom_elem ''parent'' None [pom_elem ''relativePath'' None []],
        pom_elem ''dependencies'' None
          [pom_elem ''dependency'' None
             [pom_elem ''groupId'' (Some ''junit'') [],
              pom_elem ''artifactId'' (Some '' junit '') [],
              pom_elem ''version'' (Some ''4.13'') [],
              pom_elem ''scope'' (Some ''test'') []],
           pom_elem ''dependency'' None
             [pom_elem ''groupId'' (Some ''g'') [],
              pom_elem ''artifactId'' (Some ''a'') [],
              pom_elem ''version'' (Some ''1.0'') [],
              pom_elem ''exclusions'' None
                [pom_elem ''exclusion'' None
                   [pom_elem ''groupId'' (Some ''x'') [],
                    pom_elem ''artifactId'' (Some ''y'') []]]]]]"

lemmas example_pom_defs = example_pom_prolog_def example_pom_markup_def example_pom_text_def
  example_pom_tree_def pom_elem_def written_leaf_def pom_uri_def dq_def

lemmas example_defs = example_text_before_def example_tree_before_def example_text_after_def
  example_tree_after_def example_parser_def example_commit_def example_other_commit_def
  project_elem_def dependency_elem_def leaf_def

lemmas run_defs = mine_repository_def mine_commit_def mine_file_def diff_snapshots_def
  parse_pom_dependencies_def findall_def find_child_def qualify_def pom_entry_def
  strip_text_def strip_def isspace_def keys_minus_def keys_inter_def dict_keys_def dict_get_def
  record_change_def py_str_def

section \<open>Dictionaries\<close>

lemma map_of_dict_store: "map_of (dict_store k v d) = (map_of d)(k \<mapsto> v)"
  by (induction d) (auto simp: fun_eq_iff)

lemma keys_dict_store: "fst ` set (dict_store k v d) = insert k (fst ` set d)"
  by (induction d) auto

lemma distinct_dict_store: "distinct (map fst d) \<Longrightarrow> distinct (map fst (dict_store k v d))"
  by (induction d) (auto simp: keys_dict_store)

lemma map_of_store_all: "map_of (store_all es d) = map_of d ++ map_of (rev es)"
  unfolding store_all_def
  by (induction es arbitrary: d)
     (auto simp: map_of_dict_store fun_eq_iff map_add_def split: option.splits)

lemma keys_store_all: "fst ` set (store_all es d) = fst ` set es \<union> fst ` set d"
  unfolding store_all_def
  by (induction es arbitrary: d) (simp_all add: keys_dict_store split_beta)

lemma distinct_store_all: "distinct (map fst d) \<Longrightarrow> distinct (map fst (store_all es d))"
  unfolding store_all_def
  by (induction es arbitrary: d) (auto simp: distinct_dict_store)

section \<open>The structural loop\<close>

lemma pom_entry_error: "pom_entry ns dep = Inl e \<Longrightarrow> e = AttributeError"
  by (auto simp: pom_entry_def strip_text_def Let_def split: option.splits sum.splits)

lemma pom_loop_error: "pom_loop ns deps d = Inl e \<Longrightarrow> e = AttributeError"
  by (induction deps arbitrary: d) (auto split: sum.splits option.splits dest: pom_entry_error)

lemma pom_loop_raises:
  "dep \<in> set deps \<Longrightarrow> pom_entry ns dep = Inl e \<Longrightarrow> pom_loop ns deps d = Inl AttributeError"
  by (induction deps arbitrary: d) (auto split: sum.splits option.splits dest: pom_entry_error)

lemma pom_loop_result:
  "pom_loop ns deps d = Inr d' \<Longrightarrow> d' = store_all (entries_of ns deps) d"
  by (induction deps arbitrary: d)
     (auto simp: entries_of_def store_all_def split: sum.splits option.splits)

lemma pom_loop_no_error:
  "pom_loop ns deps d = Inr d' \<Longrightarrow> dep \<in> set deps \<Longrightarrow> \<exists>r. pom_entry ns dep = Inr r"
  by (induction deps arbitrary: d) (auto split: sum.splits option.splits)

lemma pom_loop_skip:
  "pom_loop ns (filter (\<lambda>dep. pom_entry ns dep \<noteq> Inr None) deps) d = pom_loop ns deps d"
  by (induction deps arbitrary: d) (auto split: sum.splits option.splits)

lemma pom_entry_skip:
  "(pom_entry ns dep = Inr None) =
     (find_child (qualify ns ''groupId'') dep = None \<or>
      find_child (qualify ns ''artifactId'') dep = None)"
  by (auto simp: pom_entry_def strip_text_def Let_def split: option.splits sum.splits)

lemma entries_of_append: "entries_of ns (a @ b) = entries_of ns a @ entries_of ns b"
  by (simp add: entries_of_def)

lemma entries_of_Cons:
  "entries_of ns (dep # deps) =
     (case pom_entry ns dep of Inr (Some kv) \<Rightarrow> [kv] | _ \<Rightarrow> []) @ entries_of ns deps"
  by (simp add: entries_of_def)

lemma in_entries_of:
  "(kv \<in> set (entries_of ns deps)) = (\<exists>dep \<in> set deps. pom_entry ns dep = Inr (Some kv))"
proof (induction deps)
  case Nil
  show ?case by (simp add: entries_of_def)
next
  case (Cons dep deps)
  show ?case
    using Cons.IH
    by (cases "pom_entry ns dep"; cases kv) (auto simp: entries_of_Cons split: option.splits)
qed

lemma pom_loop_total:
  "\<forall>x \<in> set deps. \<forall>e. pom_entry ns x \<noteq> Inl e \<Longrightarrow> \<exists>d'. pom_loop ns deps d = Inr d'"
  by (induction deps arbitrary: d) (auto split: sum.splits option.splits)

lemma filter_key_distinct:
  "distinct (map fst d) \<Longrightarrow> k \<in> fst ` set d \<Longrightarrow> length (filter (\<lambda>p. fst p = k) d) = 1"
proof (induction d)
  case Nil
  then show ?case by simp
next
  case (Cons p d)
  show ?case
  proof (cases "fst p = k")
    case True
    with Cons.prems have "k \<notin> fst ` set d"
      by auto
    then have "filter (\<lambda>p. fst p = k) d = []"
      by (force simp: filter_empty_conv)
    with True show ?thesis by simp
  next
    case False
    with Cons show ?thesis by auto
  qed
qed

lemma parse_pom_parsed:
  "t \<noteq> [] \<Longrightarrow> fromstring t = Some tree \<Longrightarrow>
   parse_pom_dependencies fromstring (Some t) =
     pom_loop (map_of (nsmap tree) None)
       (findall (qualify (map_of (nsmap tree) None) ''dependency'') tree) []"
  by (simp add: parse_pom_dependencies_def Let_def)

lemma last_entry_wins:
  assumes "\<forall>x \<in> set post. \<forall>v. pom_entry ns x \<noteq> Inr (Some (k, v))"
    and "pom_entry ns dep = Inr (Some (k, v))"
  shows "map_of (store_all (entries_of ns (pre @ dep # post)) d) k = Some v"
proof -
  have "k \<notin> fst ` set (entries_of ns post)"
    using assms(1) by (auto simp: in_entries_of)
  then have "map_of (rev (entries_of ns post)) k = None"
    by (simp add: map_of_eq_None_iff)
  then show ?thesis
    using assms(2)
    by (simp add: map_of_store_all entries_of_append entries_of_Cons map_add_def)
qed

section \<open>Empty and absent input\<close>

text \<open>
  Claim C7. Given no text (\<^verbatim>\<open>None\<close>) or the empty text, each of the two extractors
  returns the empty snapshot and raises nothing; the structural one does not even call
  the parser.
\<close>

theorem extractor_empty_input:
  "parse_pom_dependencies fromstring None = Inr [] \<and>
   parse_pom_dependencies fromstring (Some []) = Inr [] \<and>
   parse_dependency_blocks None = [] \<and>
   parse_dependency_blocks (Some []) = []"
  by (simp add: parse_pom_dependencies_def parse_dependency_blocks_def)

section \<open>Entries without identifiers, without version, and duplicates\<close>

text \<open>
  Claim C3, amended. For a text that the parser accepts, the structural extractor returns
  what its loop returns on the dependency elements that have both a group and an artifact
  identifier element: the others are skipped without a trace and without an error.
  When it returns a snapshot, every key of the snapshot comes from an element with both
  identifiers, and an element with both identifiers and no version element puts its key
  into the snapshot with the value \<^verbatim>\<open>None\<close>, which stays there unless a later element
  stores the same key again.
\<close>

theorem skip_without_identifier_keep_without_version:
  assumes "t \<noteq> []" and "fromstring t = Some tree"
    and "namespace = map_of (nsmap tree) None"
    and "deps = findall (qualify namespace ''dependency'') tree"
    and "has_ids = (\<lambda>dep. find_child (qualify namespace ''groupId'') dep \<noteq> None \<and>
                           find_child (qualify namespace ''artifactId'') dep \<noteq> None)"
  shows "parse_pom_dependencies fromstring (Some t) = pom_loop namespace (filter has_ids deps) [] \<and>
         (\<forall>d. parse_pom_dependencies fromstring (Some t) = Inr d \<longrightarrow>
            (\<forall>k \<in> fst ` set d. \<exists>dep \<in> set deps. \<exists>v.
                has_ids dep \<and> pom_entry namespace dep = Inr (Some (k, v))) \<and>
            (\<forall>pre dep post.
                deps = pre @ dep # post \<and> has_ids dep \<and>
                find_child (qualify namespace ''version'') dep = None \<longrightarrow>
                (\<exists>k. pom_entry namespace dep = Inr (Some (k, None)) \<and> k \<in> fst ` set d \<and>
                     ((\<forall>x \<in> set post. \<forall>v. pom_entry namespace x \<noteq> Inr (Some (k, v))) \<longrightarrow>
                      map_of d k = Some None))))"
proof (intro conjI allI impI)
  have "filter has_ids deps = filter (\<lambda>dep. pom_entry namespace dep \<noteq> Inr None) deps"
    by (simp add: assms(5) pom_entry_skip)
  then show "parse_pom_dependencies fromstring (Some t) = pom_loop namespace (filter has_ids deps) []"
    using assms(1-4) by (simp add: parse_pom_parsed pom_loop_skip)
next
  fix d
  assume "parse_pom_dependencies fromstring (Some t) = Inr d"
  then have loop: "pom_loop namespace deps [] = Inr d"
    using assms(1-4) by (simp add: parse_pom_parsed)
  then have d: "d = store_all (entries_of namespace deps) []"
    by (rule pom_loop_result)
  show "\<forall>k \<in> fst ` set d. \<exists>dep \<in> set deps. \<exists>v.
           has_ids dep \<and> pom_entry namespace dep = Inr (Some (k, v))"
  proof
    fix k
    assume "k \<in> fst ` set d"
    then obtain v where "(k, v) \<in> set (entries_of namespace deps)"
      unfolding d keys_store_all by auto
    then obtain dep where dep: "dep \<in> set deps" "pom_entry namespace dep = Inr (Some (k, v))"
      by (auto simp: in_entries_of)
    then have "pom_entry namespace dep \<noteq> Inr None"
      by simp
    then have "has_ids dep"
      by (simp add: assms(5) pom_entry_skip)
    with dep show "\<exists>dep \<in> set deps. \<exists>v. has_ids dep \<and> pom_entry namespace dep = Inr (Some (k, v))"
      by blast
  qed
  fix pre dep post
  assume a: "deps = pre @ dep # post \<and> has_ids dep \<and>
             find_child (qualify namespace ''version'') dep = None"
  then have "dep \<in> set deps"
    by simp
  then obtain r where r: "pom_entry namespace dep = Inr r"
    using loop pom_loop_no_error by blast
  then obtain k where k: "pom_entry namespace dep = Inr (Some (k, None))"
    using a
    by (auto simp: assms(5) pom_entry_def strip_text_def Let_def split: option.splits sum.splits)
  have "k \<in> fst ` set d"
    unfolding d keys_store_all using k \<open>dep \<in> set deps\<close>
    by (force simp: in_entries_of)
  moreover have "map_of d k = Some None"
    if "\<forall>x \<in> set post. \<forall>v. pom_entry namespace x \<noteq> Inr (Some (k, v))"
    using last_entry_wins [OF that k, of pre "[]"] a d by simp
  ultimately show "\<exists>k. pom_entry namespace dep = Inr (Some (k, None)) \<and> k \<in> fst ` set d \<and>
                     ((\<forall>x \<in> set post. \<forall>v. pom_entry namespace x \<noteq> Inr (Some (k, v))) \<longrightarrow>
                      map_of d k = Some None)"
    using k by blast
qed

theorem skip_without_identifier_keep_without_version_witness:
  "parse_pom_dependencies
     (\<lambda>_. Some (project_elem
        [dependency_elem [leaf ''artifactId'' (Some ''x'')],
         dependency_elem [leaf ''groupId'' (Some ''g''), leaf ''artifactId'' (Some ''a'')],
         dependency_elem [leaf ''groupId'' (Some ''h''), leaf ''artifactId'' (Some ''b''),
                          leaf ''version'' (Some ''1.0'')]]))
     (Some ''<project><dependencies><dependency><artifactId>x</artifactId></dependency><dependency><groupId>g</groupId><artifactId>a</artifactId></dependency><dependency><groupId>h</groupId><artifactId>b</artifactId><version>1.0</version></dependency></dependencies></project>'')
   = Inr [(''g:a'', None), (''h:b'', Some ''1.0'')]"
  using skip_without_identifier_keep_without_version [where
      t = "''<project><dependencies><dependency><artifactId>x</artifactId></dependency><dependency><groupId>g</groupId><artifactId>a</artifactId></dependency><dependency><groupId>h</groupId><artifactId>b</artifactId><version>1.0</version></dependency></dependencies></project>''"
      and fromstring = "\<lambda>_. Some (project_elem
        [dependency_elem [leaf ''artifactId'' (Some ''x'')],
         dependency_elem [leaf ''groupId'' (Some ''g''), leaf ''artifactId'' (Some ''a'')],
         dependency_elem [leaf ''groupId'' (Some ''h''), leaf ''artifactId'' (Some ''b''),
                          leaf ''version'' (Some ''1.0'')]])"
      and tree = "project_elem
        [dependency_elem [leaf ''artifactId'' (Some ''x'')],
         dependency_elem [leaf ''groupId'' (Some ''g''), leaf ''artifactId'' (Some ''a'')],
         dependency_elem [leaf ''groupId'' (Some ''h''), leaf ''artifactId'' (Some ''b''),
                          leaf ''version'' (Some ''1.0'')]]",
      OF _ _ refl refl refl]
  by (simp add: project_elem_def dependency_elem_def leaf_def findall_def find_child_def
        qualify_def pom_entry_def strip_text_def strip_def isspace_def)

text \<open>
  Claim C3 as stated, that every entry without version element leaves its key mapped to
  \<^verbatim>\<open>None\<close>, fails when a later entry stores the same key with a version: the store at
  line 65 overwrites.
\<close>

theorem version_less_entry_overwritten:
  "parse_pom_dependencies
     (\<lambda>_. Some (project_elem
        [dependency_elem [leaf ''groupId'' (Some ''g''), leaf ''artifactId'' (Some ''a'')],
         dependency_elem [leaf ''groupId'' (Some ''g''), leaf ''artifactId'' (Some ''a''),
                          leaf ''version'' (Some ''1.0'')]]))
     (Some ''<project><dependencies><dependency><groupId>g</groupId><artifactId>a</artifactId></dependency><dependency><groupId>g</groupId><artifactId>a</artifactId><version>1.0</version></dependency></dependencies></project>'')
   = Inr [(''g:a'', Some ''1.0'')]"
  by (simp add: parse_pom_dependencies_def project_elem_def dependency_elem_def leaf_def
        findall_def find_child_def qualify_def pom_entry_def strip_text_def strip_def
        isspace_def)

text \<open>
  Claim C9. When two dependency elements of an accepted text give the same key, no later
  element gives that key again and no element makes the loop fail, the extractor returns
  a snapshot that maps the key to the version of the second of the two, and the key
  occurs in the snapshot exactly once.
\<close>

theorem duplicate_key_last_wins:
  assumes "t \<noteq> []" and "fromstring t = Some tree"
    and "namespace = map_of (nsmap tree) None"
    and "findall (qualify namespace ''dependency'') tree = pre @ dep1 # mid @ dep2 # post"
    and "pom_entry namespace dep1 = Inr (Some (k, v1))"
    and "pom_entry namespace dep2 = Inr (Some (k, v2))"
    and "\<forall>x \<in> set post. \<forall>v. pom_entry namespace x \<noteq> Inr (Some (k, v))"
    and "\<forall>x \<in> set (pre @ mid @ post). \<forall>e. pom_entry namespace x \<noteq> Inl e"
  shows "\<exists>d. parse_pom_dependencies fromstring (Some t) = Inr d \<and>
             map_of d k = Some v2 \<and> length (filter (\<lambda>p. fst p = k) d) = 1"
proof -
  let ?deps = "pre @ dep1 # mid @ dep2 # post"
  have "\<forall>x \<in> set ?deps. \<forall>e. pom_entry namespace x \<noteq> Inl e"
    using assms(5,6,8) by auto
  then obtain d where d: "pom_loop namespace ?deps [] = Inr d"
    using pom_loop_total by blast
  then have eq: "d = store_all (entries_of namespace ?deps) []"
    by (rule pom_loop_result)
  have "map_of d k = Some v2"
    using last_entry_wins [OF assms(7) assms(6), of "pre @ dep1 # mid" "[]"] eq by simp
  moreover have "distinct (map fst d)"
    unfolding eq by (rule distinct_store_all) simp
  moreover have "k \<in> fst ` set d"
    using \<open>map_of d k = Some v2\<close> by (metis map_of_eq_None_iff option.distinct(1))
  ultimately show ?thesis
    using d assms(1-4) filter_key_distinct [of d k]
    by (simp add: parse_pom_parsed)
qed

theorem duplicate_key_last_wins_witness:
  "\<exists>d. parse_pom_dependencies
     (\<lambda>_. Some (project_elem
        [dependency_elem [leaf ''groupId'' (Some ''g''), leaf ''artifactId'' (Some ''a''),
                          leaf ''version'' (Some ''1.0'')],
         dependency_elem [leaf ''groupId'' (Some ''g''), leaf ''artifactId'' (Some ''a''),
                          leaf ''version'' (Some ''2.0'')]]))
     (Some ''<project><dependencies><dependency><groupId>g</groupId><artifactId>a</artifactId><version>1.0</version></dependency><dependency><groupId>g</groupId><artifactId>a</artifactId><version>2.0</version></dependency></dependencies></project>'')
      = Inr d \<and>
     map_of d ''g:a'' = Some (Some ''2.0'') \<and> length (filter (\<lambda>p. fst p = ''g:a'') d) = 1"
  using duplicate_key_last_wins [where
      t = "''<project><dependencies><dependency><groupId>g</groupId><artifactId>a</artifactId><version>1.0</version></dependency><dependency><groupId>g</groupId><artifactId>a</artifactId><version>2.0</version></dependency></dependencies></project>''"
      and fromstring = "\<lambda>_. Some (project_elem
        [dependency_elem [leaf ''groupId'' (Some ''g''), leaf ''artifactId'' (Some ''a''),
                          leaf ''version'' (Some ''1.0'')],
         dependency_elem [leaf ''groupId'' (Some ''g''), leaf ''artifactId'' (Some ''a''),
                          leaf ''version'' (Some ''2.0'')]])"
      and tree = "project_elem
        [dependency_elem [leaf ''groupId'' (Some ''g''), leaf ''artifactId'' (Some ''a''),
                          leaf ''version'' (Some ''1.0'')],
         dependency_elem [leaf ''groupId'' (Some ''g''), leaf ''artifactId'' (Some ''a''),
                          leaf ''version'' (Some ''2.0'')]]"
      and namespace = None and pre = "[]" and mid = "[]" and post = "[]"
      and ?dep1.0 = "dependency_elem [leaf ''groupId'' (Some ''g''), leaf ''artifactId'' (Some ''a''),
                          leaf ''version'' (Some ''1.0'')]"
      and ?dep2.0 = "dependency_elem [leaf ''groupId'' (Some ''g''), leaf ''artifactId'' (Some ''a''),
                          leaf ''version'' (Some ''2.0'')]"
      and k = "''g:a''" and ?v1.0 = "Some ''1.0''" and ?v2.0 = "Some ''2.0''"]
  by (simp add: project_elem_def dependency_elem_def leaf_def findall_def find_child_def
        qualify_def pom_entry_def strip_text_def strip_def isspace_def)

text \<open>
  Claim C10. In an accepted text, a dependency element that has both identifier elements
  and whose group, artifact or version element has no text (lxml gives the text
  \<^verbatim>\<open>None\<close> for an empty element) makes the loop body raise \<^verbatim>\<open>AttributeError\<close>, and
  the extractor with it; the entry is not skipped. The skip is taken exactly when an
  identifier element is absent (\<open>pom_entry_skip\<close>).
\<close>

theorem empty_identifier_raises:
  assumes "t \<noteq> []" and "fromstring t = Some tree"
    and "namespace = map_of (nsmap tree) None"
    and "dep \<in> set (findall (qualify namespace ''dependency'') tree)"
    and "find_child (qualify namespace ''groupId'') dep = Some g"
    and "find_child (qualify namespace ''artifactId'') dep = Some a"
    and "etext g = None \<or> etext a = None \<or>
         (\<exists>v. find_child (qualify namespace ''version'') dep = Some v \<and> etext v = None)"
  shows "pom_entry namespace dep = Inl AttributeError \<and>
         parse_pom_dependencies fromstring (Some t) = Inl AttributeError"
proof -
  have "pom_entry namespace dep = Inl AttributeError"
    using assms(5-7)
    by (auto simp: pom_entry_def strip_text_def Let_def split: option.splits sum.splits)
  then show ?thesis
    using assms(1-4) pom_loop_raises [of dep _ namespace AttributeError "[]"]
    by (simp add: parse_pom_parsed)
qed

theorem empty_identifier_raises_witness:
  "parse_pom_dependencies
     (\<lambda>_. Some (project_elem
        [dependency_elem [leaf ''groupId'' None, leaf ''artifactId'' (Some ''a'')]]))
     (Some ''<project><dependencies><dependency><groupId></groupId><artifactId>a</artifactId></dependency></dependencies></project>'')
   = Inl AttributeError \<and>
   parse_pom_dependencies
     (\<lambda>_. Some (project_elem
        [dependency_elem [leaf ''groupId'' (Some ''g''), leaf ''artifactId'' (Some ''a''),
                          leaf ''version'' None]]))
     (Some ''<project><dependencies><dependency><groupId>g</groupId><artifactId>a</artifactId><version/></dependency></dependencies></project>'')
   = Inl AttributeError"
  using
    empty_identifier_raises [of
      "''<project><dependencies><dependency><groupId></groupId><artifactId>a</artifactId></dependency></dependencies></project>''"
      "\<lambda>_. Some (project_elem
        [dependency_elem [leaf ''groupId'' None, leaf ''artifactId'' (Some ''a'')]])"
      "project_elem [dependency_elem [leaf ''groupId'' None, leaf ''artifactId'' (Some ''a'')]]"
      None
      "dependency_elem [leaf ''groupId'' None, leaf ''artifactId'' (Some ''a'')]"
      "leaf ''groupId'' None" "leaf ''artifactId'' (Some ''a'')"]
    empty_identifier_raises [of
      "''<project><dependencies><dependency><groupId>g</groupId><artifactId>a</artifactId><version/></dependency></dependencies></project>''"
      "\<lambda>_. Some (project_elem
        [dependency_elem [leaf ''groupId'' (Some ''g''), leaf ''artifactId'' (Some ''a''),
                          leaf ''version'' None]])"
      "project_elem [dependency_elem [leaf ''groupId'' (Some ''g''), leaf ''artifactId'' (Some ''a''),
                          leaf ''version'' None]]"
      None
      "dependency_elem [leaf ''groupId'' (Some ''g''), leaf ''artifactId'' (Some ''a''),
                          leaf ''version'' None]"
      "leaf ''groupId'' (Some ''g'')" "leaf ''artifactId'' (Some ''a'')"]
  by (simp add: project_elem_def dependency_elem_def leaf_def findall_def find_child_def
        qualify_def)

lemma emitted_refl: "emitted c st st []"
  by (simp add: emitted_def)

lemma emitted_trans:
  "emitted c st st' new \<Longrightarrow> emitted c st' st'' new' \<Longrightarrow> emitted c st st'' (new @ new')"
  by (auto simp: emitted_def)

lemma emitted_record_change:
  "emitted c st (record_change c dep ch st) [[hash c, committer_date c, author_name c, dep, ch]]"
  by (simp add: emitted_def record_change_def)

lemma emitted_fold:
  "emitted c st (fold (\<lambda>dep. record_change c dep ch) deps st)
     (map (\<lambda>dep. [hash c, committer_date c, author_name c, dep, ch]) deps)"
proof (induction deps arbitrary: st)
  case Nil
  show ?case by (simp add: emitted_refl)
next
  case (Cons dep deps)
  have a: "emitted c st (record_change c dep ch st)
             [[hash c, committer_date c, author_name c, dep, ch]]"
    by (rule emitted_record_change)
  have b: "emitted c (record_change c dep ch st)
             (fold (\<lambda>dep. record_change c dep ch) deps (record_change c dep ch st))
             (map (\<lambda>dep. [hash c, committer_date c, author_name c, dep, ch]) deps)"
    by (rule Cons.IH)
  from emitted_trans [OF a b] show ?case
    by simp
qed

lemma changed_loop_emitted:
  "set deps \<subseteq> fst ` set old_deps \<inter> fst ` set new_deps \<Longrightarrow>
   \<exists>st'. changed_loop c old_deps new_deps deps st = Inr st' \<and>
         emitted c st st' (changed_rows c old_deps new_deps deps)"
proof (induction deps arbitrary: st)
  case Nil
  show ?case by (simp add: changed_rows_def emitted_refl)
next
  case (Cons dep deps)
  from Cons.prems have "map_of old_deps dep \<noteq> None" "map_of new_deps dep \<noteq> None"
    by (simp_all add: map_of_eq_None_iff)
  then obtain old_v new_v where
    v: "map_of old_deps dep = Some old_v" "map_of new_deps dep = Some new_v"
    by auto
  let ?st1 = "if old_v \<noteq> new_v
      then record_change c dep (''changed from '' @ py_str old_v @ '' to '' @ py_str new_v) st
      else st"
  let ?new1 = "if old_v \<noteq> new_v
      then [[hash c, committer_date c, author_name c, dep,
             ''changed from '' @ py_str old_v @ '' to '' @ py_str new_v]]
      else []"
  have one: "emitted c st ?st1 ?new1"
    by (simp add: emitted_refl emitted_record_change)
  from Cons.prems have "set deps \<subseteq> fst ` set old_deps \<inter> fst ` set new_deps"
    by simp
  from Cons.IH [OF this, of ?st1] obtain st' where
    st': "changed_loop c old_deps new_deps deps ?st1 = Inr st'"
         "emitted c ?st1 st' (changed_rows c old_deps new_deps deps)"
    by blast
  have "changed_rows c old_deps new_deps (dep # deps) = ?new1 @ changed_rows c old_deps new_deps deps"
    using v by (simp add: changed_rows_def)
  with emitted_trans [OF one st'(2)] st'(1) v show ?case
    by (simp add: dict_get_def)
qed

lemma changed_loop_rows:
  "changed_loop c old_deps new_deps deps st = Inr st' \<Longrightarrow>
   emitted c st st' (changed_rows c old_deps new_deps deps)"
proof (induction deps arbitrary: st)
  case Nil
  then show ?case by (simp add: changed_rows_def emitted_refl)
next
  case (Cons dep deps)
  from Cons.prems obtain old_v new_v where
    v: "map_of old_deps dep = Some old_v" "map_of new_deps dep = Some new_v"
    by (auto simp: dict_get_def split: option.splits)
  let ?st1 = "if old_v \<noteq> new_v
      then record_change c dep (''changed from '' @ py_str old_v @ '' to '' @ py_str new_v) st
      else st"
  let ?new1 = "if old_v \<noteq> new_v
      then [[hash c, committer_date c, author_name c, dep,
             ''changed from '' @ py_str old_v @ '' to '' @ py_str new_v]]
      else []"
  have one: "emitted c st ?st1 ?new1"
    by (simp add: emitted_refl emitted_record_change)
  have "changed_loop c old_deps new_deps deps ?st1 = Inr st'"
    using Cons.prems v by (simp add: dict_get_def)
  then have rest: "emitted c ?st1 st' (changed_rows c old_deps new_deps deps)"
    by (rule Cons.IH)
  have "changed_rows c old_deps new_deps (dep # deps) = ?new1 @ changed_rows c old_deps new_deps deps"
    using v by (simp add: changed_rows_def)
  with emitted_trans [OF one rest] show ?case
    by simp
qed

lemma diff_snapshots_rows:
  assumes "diff_snapshots set_order c old_deps new_deps st = Inr st'"
  shows "emitted c st st' (diff_rows set_order c old_deps new_deps)"
proof -
  let ?st1 = "fold (\<lambda>dep. record_change c dep ''added'') (set_order (keys_minus new_deps old_deps)) st"
  let ?st2 = "fold (\<lambda>dep. record_change c dep ''removed'') (set_order (keys_minus old_deps new_deps)) ?st1"
  have "changed_loop c old_deps new_deps (set_order (keys_inter old_deps new_deps)) ?st2 = Inr st'"
    using assms by (simp add: diff_snapshots_def Let_def)
  then have "emitted c ?st2 st'
               (changed_rows c old_deps new_deps (set_order (keys_inter old_deps new_deps)))"
    by (rule changed_loop_rows)
  from emitted_trans [OF emitted_trans [OF emitted_fold emitted_fold] this]
  show ?thesis
    by (simp add: diff_rows_def)
qed

lemma set_keys_inter: "set (keys_inter a b) = fst ` set a \<inter> fst ` set b"
  by (auto simp: keys_inter_def dict_keys_def)

lemma set_keys_minus: "set (keys_minus a b) = fst ` set a - fst ` set b"
  by (auto simp: keys_minus_def dict_keys_def)

lemma distinct_keys_minus: "distinct (keys_minus a b)"
  by (simp add: keys_minus_def)

lemma distinct_keys_inter: "distinct (keys_inter a b)"
  by (simp add: keys_inter_def)

lemma diff_snapshots_total:
  assumes "set (set_order (keys_inter old_deps new_deps)) \<subseteq> set (keys_inter old_deps new_deps)"
  shows "\<exists>st'. diff_snapshots set_order c old_deps new_deps st = Inr st'"
  using changed_loop_emitted [of "set_order (keys_inter old_deps new_deps)" old_deps new_deps c] assms
  by (fastforce simp: diff_snapshots_def Let_def set_keys_inter)

lemma mine_file_rows:
  "mine_file set_order fromstring c m st = Inr st' \<Longrightarrow> \<exists>new. emitted c st st' new"
  by (auto simp: mine_file_def split: if_splits sum.splits
           intro: emitted_refl dest: diff_snapshots_rows)

lemma files_loop_rows:
  "files_loop set_order fromstring c ms st = Inr st' \<Longrightarrow> \<exists>new. emitted c st st' new"
proof (induction ms arbitrary: st)
  case Nil
  then show ?case by (auto intro: emitted_refl)
next
  case (Cons m ms)
  then obtain st1 where 1: "mine_file set_order fromstring c m st = Inr st1"
    and 2: "files_loop set_order fromstring c ms st1 = Inr st'"
    by (auto split: sum.splits)
  from mine_file_rows [OF 1] Cons.IH [OF 2] show ?case
    by (blast intro: emitted_trans)
qed

lemma mine_commit_rows:
  "mine_commit set_order fromstring c st = Inr st' \<Longrightarrow> \<exists>new. emitted c st st' new"
  unfolding mine_commit_def by (rule files_loop_rows)

lemma emitted_hashes:
  assumes "emitted c st st' new"
    and "commits_with_changes st = (\<lambda>r. r ! 0) ` set (rows st)"
  shows "commits_with_changes st' = (\<lambda>r. r ! 0) ` set (rows st')"
proof -
  have "(\<lambda>r. r ! 0) ` set new = (if new = [] then {} else {hash c})"
    using assms(1) by (cases new) (auto simp: emitted_def)
  then show ?thesis
    using assms by (auto simp: emitted_def image_Un)
qed

lemma commits_loop_hashes:
  "commits_loop set_order fromstring cs st = Inr st' \<Longrightarrow>
   commits_with_changes st = (\<lambda>r. r ! 0) ` set (rows st) \<Longrightarrow>
   commits_with_changes st' = (\<lambda>r. r ! 0) ` set (rows st')"
proof (induction cs arbitrary: st)
  case Nil
  then show ?case by simp
next
  case (Cons c cs)
  then obtain st1 where 1: "mine_commit set_order fromstring c st = Inr st1"
    and 2: "commits_loop set_order fromstring cs st1 = Inr st'"
    by (auto split: sum.splits)
  from mine_commit_rows [OF 1] obtain new where "emitted c st st1 new" ..
  then have "commits_with_changes st1 = (\<lambda>r. r ! 0) ` set (rows st1)"
    using Cons.prems(2) by (rule emitted_hashes)
  with 2 show ?case by (rule Cons.IH)
qed

section \<open>The set of commit identifiers\<close>

text \<open>
  Claim C5. Whatever a commit's files make the driver append, every appended row carries
  the commit's hash in its first column, and the set of commit identifiers is unchanged
  when nothing was appended and gains that one hash otherwise, so its size grows by one
  when the hash was not in it, however many rows were appended. When a run completes, the
  number it prints is the number of distinct hashes found in the first column of the
  accumulated rows.
\<close>

theorem commit_counted_once:
  "(\<forall>st st'. mine_commit set_order fromstring c st = Inr st' \<longrightarrow>
      (\<exists>new. rows st' = rows st @ new \<and> (\<forall>r \<in> set new. r ! 0 = hash c) \<and>
         commits_with_changes st' =
           (if new = [] then commits_with_changes st
            else insert (hash c) (commits_with_changes st)) \<and>
         (finite (commits_with_changes st) \<and> hash c \<notin> commits_with_changes st \<longrightarrow>
            card (commits_with_changes st') =
              card (commits_with_changes st) + (if new = [] then 0 else 1)))) \<and>
   (\<forall>rep. mine_repository set_order fromstring traverse_commits owner repo = Inr rep \<longrightarrow>
      (\<exists>st. commits_loop set_order fromstring
               (traverse_commits (''https://github.com/'' @ owner @ ''/'' @ repo))
               \<lparr>commits_with_changes = {}, rows = []\<rparr> = Inr st \<and>
            printed_count rep = card ((\<lambda>r. r ! 0) ` set (rows st))))"
proof (intro conjI allI impI)
  fix st st'
  assume "mine_commit set_order fromstring c st = Inr st'"
  from mine_commit_rows [OF this] obtain new where "emitted c st st' new" ..
  then show "\<exists>new. rows st' = rows st @ new \<and> (\<forall>r \<in> set new. r ! 0 = hash c) \<and>
         commits_with_changes st' =
           (if new = [] then commits_with_changes st
            else insert (hash c) (commits_with_changes st)) \<and>
         (finite (commits_with_changes st) \<and> hash c \<notin> commits_with_changes st \<longrightarrow>
            card (commits_with_changes st') =
              card (commits_with_changes st) + (if new = [] then 0 else 1))"
    by (intro exI [of _ new]) (auto simp: emitted_def)
next
  fix rep
  assume "mine_repository set_order fromstring traverse_commits owner repo = Inr rep"
  then obtain st where st: "commits_loop set_order fromstring
               (traverse_commits (''https://github.com/'' @ owner @ ''/'' @ repo))
               \<lparr>commits_with_changes = {}, rows = []\<rparr> = Inr st"
    and rep: "printed_count rep = card (commits_with_changes st)"
    by (auto simp: mine_repository_def Let_def split: sum.splits)
  from commits_loop_hashes [OF st] have "commits_with_changes st = (\<lambda>r. r ! 0) ` set (rows st)"
    by simp
  with st rep show "\<exists>st. commits_loop set_order fromstring
               (traverse_commits (''https://github.com/'' @ owner @ ''/'' @ repo))
               \<lparr>commits_with_changes = {}, rows = []\<rparr> = Inr st \<and>
            printed_count rep = card ((\<lambda>r. r ! 0) ` set (rows st))"
    by auto
qed

theorem commit_counted_once_witness:
  "\<exists>rep. mine_repository rev example_parser (\<lambda>_. [example_commit, example_other_commit])
           ''o'' ''r'' = Inr rep \<and>
         printed_count rep = 1"
  using commit_counted_once [of rev example_parser example_commit
      "\<lambda>_. [example_commit, example_other_commit]" "''o''" "''r''"]
  by (simp add: run_defs example_defs)

lemma mine_file_other:
  "filename m \<noteq> ''pom.xml'' \<Longrightarrow> mine_file set_order fromstring c m st = Inr st"
  by (simp add: mine_file_def)

lemma files_loop_filter:
  "files_loop set_order fromstring c (filter (\<lambda>m. filename m = ''pom.xml'') ms) st =
   files_loop set_order fromstring c ms st"
  by (induction ms arbitrary: st) (auto simp: mine_file_other split: sum.splits)

section \<open>Files with other names\<close>

text \<open>
  Claim C6. A commit is processed as if it modified only its files named exactly
  \<^verbatim>\<open>pom.xml\<close>: the other files reach neither extractor nor comparator. A commit
  without such a file leaves rows and commit-identifier set as they were and cannot fail,
  whatever its files hold.
\<close>

theorem only_descriptor_files_mined:
  "mine_commit set_order fromstring c st =
     files_loop set_order fromstring c
       (filter (\<lambda>m. filename m = ''pom.xml'') (modified_files c)) st \<and>
   ((\<forall>m \<in> set (modified_files c). filename m \<noteq> ''pom.xml'') \<longrightarrow>
      mine_commit set_order fromstring c st = Inr st)"
proof
  show "mine_commit set_order fromstring c st =
     files_loop set_order fromstring c
       (filter (\<lambda>m. filename m = ''pom.xml'') (modified_files c)) st"
    by (simp add: mine_commit_def files_loop_filter)
  show "(\<forall>m \<in> set (modified_files c). filename m \<noteq> ''pom.xml'') \<longrightarrow>
      mine_commit set_order fromstring c st = Inr st"
  proof
    assume "\<forall>m \<in> set (modified_files c). filename m \<noteq> ''pom.xml''"
    then have "filter (\<lambda>m. filename m = ''pom.xml'') (modified_files c) = []"
      by (simp add: filter_empty_conv)
    then show "mine_commit set_order fromstring c st = Inr st"
      using files_loop_filter [of set_order fromstring c "modified_files c" st]
      by (simp add: mine_commit_def)
  qed
qed

theorem only_descriptor_files_mined_witness:
  "mine_commit rev (\<lambda>_. None) example_other_commit \<lparr>commits_with_changes = {}, rows = []\<rparr> =
     Inr \<lparr>commits_with_changes = {}, rows = []\<rparr>"
  using only_descriptor_files_mined [of rev "\<lambda>_. None" example_other_commit
      "\<lparr>commits_with_changes = {}, rows = []\<rparr>"]
  by (simp add: example_other_commit_def)

lemma files_loop_abort:
  "m \<in> set ms \<Longrightarrow> \<forall>st. \<exists>e. mine_file set_order fromstring c m st = Inl e \<Longrightarrow>
   \<exists>e. files_loop set_order fromstring c ms st = Inl e"
proof (induction ms arbitrary: st)
  case Nil
  then show ?case by simp
next
  case (Cons x ms)
  show ?case
  proof (cases "mine_file set_order fromstring c x st")
    case (Inl e)
    then show ?thesis by simp
  next
    case (Inr st1)
    with Cons.prems have "m \<in> set ms" by (metis Inl_Inr_False set_ConsD)
    from Cons.IH [OF this Cons.prems(2)] Inr show ?thesis by simp
  qed
qed

lemma commits_loop_abort:
  "c \<in> set cs \<Longrightarrow> \<forall>st. \<exists>e. mine_commit set_order fromstring c st = Inl e \<Longrightarrow>
   \<exists>e. commits_loop set_order fromstring cs st = Inl e"
proof (induction cs arbitrary: st)
  case Nil
  then show ?case by simp
next
  case (Cons x cs)
  show ?case
  proof (cases "mine_commit set_order fromstring x st")
    case (Inl e)
    then show ?thesis by simp
  next
    case (Inr st1)
    with Cons.prems have "c \<in> set cs" by (metis Inl_Inr_False set_ConsD)
    from Cons.IH [OF this Cons.prems(2)] Inr show ?thesis by simp
  qed
qed

lemma blocks_loop_entries:
  "(k, v) \<in> set (blocks_loop blocks deps) \<Longrightarrow>
   (k, v) \<in> set deps \<or>
   (\<exists>block g a ver. block \<in> set blocks \<and>
      re_search_elem ''groupId'' block = Some g \<and>
      re_search_elem ''artifactId'' block = Some a \<and>
      re_search_elem ''version'' block = Some ver \<and>
      k = strip g @ '':'' @ strip a \<and> v = Some (strip ver))"
proof (induction blocks arbitrary: deps)
  case Nil
  then show ?case by simp
next
  case (Cons block blocks)
  have store: "(k, v) \<in> set (dict_store k' v' d) \<Longrightarrow> (k, v) \<in> set d \<or> (k, v) = (k', v')"
    for k' v' and d :: snapshot
    by (induction d) (auto split: if_splits)
  show ?case
  proof (cases "re_search_elem ''groupId'' block")
    case None
    with Cons show ?thesis by fastforce
  next
    case g: (Some g)
    show ?thesis
    proof (cases "re_search_elem ''artifactId'' block")
      case None
      with g Cons show ?thesis by fastforce
    next
      case a: (Some a)
      show ?thesis
      proof (cases "re_search_elem ''version'' block")
        case None
        with g a Cons show ?thesis by fastforce
      next
        case ver: (Some ver)
        from Cons.prems g a ver
        have "(k, v) \<in> set (blocks_loop blocks
                (dict_store (strip g @ '':'' @ strip a) (Some (strip ver)) deps))"
          by simp
        from Cons.IH [OF this] store g a ver show ?thesis
          by fastforce
      qed
    qed
  qed
qed

lemma parse_pom_unparseable:
  "t \<noteq> [] \<Longrightarrow> fromstring t = None \<Longrightarrow>
   parse_pom_dependencies fromstring (Some t) = Inl XMLSyntaxError"
  by (simp add: parse_pom_dependencies_def)

lemma mine_file_unparseable:
  assumes "t \<noteq> []" and "fromstring t = None" and "filename m = ''pom.xml''"
    and "source_code_before m = Some t \<or> source_code m = Some t"
  shows "\<exists>e. mine_file set_order fromstring c m st = Inl e"
  using assms parse_pom_unparseable [of t fromstring]
  by (auto simp: mine_file_def split: sum.splits)

section \<open>Unparseable markup\<close>

text \<open>
  Claim C4. On a non-empty text that the parser rejects, the structural extractor raises
  \<^verbatim>\<open>XMLSyntaxError\<close>, and a run that meets such a text as the content, before or after,
  of a modified \<^verbatim>\<open>pom.xml\<close> ends in an exception and writes no report. The pattern-based
  extractor is a total function into snapshots: it raises on no input, and every entry
  of its result comes from a block that its three patterns match.
\<close>

theorem unparseable_markup_aborts:
  assumes "t \<noteq> []" and "fromstring t = None"
  shows "parse_pom_dependencies fromstring (Some t) = Inl XMLSyntaxError \<and>
         (\<forall>set_order traverse_commits owner repo (c :: commit) (m :: modified_file).
            c \<in> set (traverse_commits (''https://github.com/'' @ owner @ ''/'' @ repo)) \<and>
            m \<in> set (modified_files c) \<and> filename m = ''pom.xml'' \<and>
            (source_code_before m = Some t \<or> source_code m = Some t) \<longrightarrow>
            (\<exists>e. mine_repository set_order fromstring traverse_commits owner repo = Inl e)) \<and>
         (\<forall>x k v. (k, v) \<in> set (parse_dependency_blocks x) \<longrightarrow>
            (\<exists>s block g a ver.
               x = Some s \<and> block \<in> set (re_findall_dependency s) \<and>
               re_search_elem ''groupId'' block = Some g \<and>
               re_search_elem ''artifactId'' block = Some a \<and>
               re_search_elem ''version'' block = Some ver \<and>
               k = strip g @ '':'' @ strip a \<and> v = Some (strip ver)))"
proof (intro conjI allI impI)
  show "parse_pom_dependencies fromstring (Some t) = Inl XMLSyntaxError"
    using assms by (rule parse_pom_unparseable)
next
  fix set_order traverse_commits owner repo and c :: commit and m :: modified_file
  assume a: "c \<in> set (traverse_commits (''https://github.com/'' @ owner @ ''/'' @ repo)) \<and>
            m \<in> set (modified_files c) \<and> filename m = ''pom.xml'' \<and>
            (source_code_before m = Some t \<or> source_code m = Some t)"
  then have "\<forall>st. \<exists>e. mine_file set_order fromstring c m st = Inl e"
    using assms mine_file_unparseable [where t = t and fromstring = fromstring and m = m]
    by blast
  with a have "\<forall>st. \<exists>e. mine_commit set_order fromstring c st = Inl e"
    unfolding mine_commit_def using files_loop_abort by blast
  with a obtain e where
    "commits_loop set_order fromstring
       (traverse_commits (''https://github.com/'' @ owner @ ''/'' @ repo))
       \<lparr>commits_with_changes = {}, rows = []\<rparr> = Inl e"
    using commits_loop_abort by blast
  then show "\<exists>e. mine_repository set_order fromstring traverse_commits owner repo = Inl e"
    by (simp add: mine_repository_def)
next
  fix x k v
  assume "(k, v) \<in> set (parse_dependency_blocks x)"
  then obtain s where x: "x = Some s"
    and "(k, v) \<in> set (blocks_loop (re_findall_dependency s) [])"
    by (auto simp: parse_dependency_blocks_def split: option.splits if_splits)
  from blocks_loop_entries [OF this(2)] x
  show "\<exists>s block g a ver.
               x = Some s \<and> block \<in> set (re_findall_dependency s) \<and>
               re_search_elem ''groupId'' block = Some g \<and>
               re_search_elem ''artifactId'' block = Some a \<and>
               re_search_elem ''version'' block = Some ver \<and>
               k = strip g @ '':'' @ strip a \<and> v = Some (strip ver)"
    by auto
qed

theorem unparseable_markup_aborts_witness:
  "parse_pom_dependencies (\<lambda>_. None) (Some ''<project><dependency>'') = Inl XMLSyntaxError \<and>
   (\<exists>e. mine_repository rev (\<lambda>_. None)
          (\<lambda>_. [\<lparr>hash = ''h2'', committer_date = ''2024-01-02T00:00:00+00:00'',
                  author_name = ''Bob'',
                  modified_files = [\<lparr>filename = ''pom.xml'', source_code_before = None,
                                     source_code = Some ''<project><dependency>''\<rparr>]\<rparr>])
          ''o'' ''r'' = Inl e) \<and>
   parse_dependency_blocks (Some ''<project><dependency>'') = []"
  using unparseable_markup_aborts [of "''<project><dependency>''" "\<lambda>_. None"]
  by (simp add: run_defs parse_dependency_blocks_def re_findall_dependency_def)

lemma filter_eq_distinct:
  "distinct xs \<Longrightarrow> filter (\<lambda>x. x = k) xs = (if k \<in> set xs then [k] else [])"
  by (induction xs) auto

lemma filter_changed_rows:
  "filter (\<lambda>r. r ! 3 = k) (changed_rows c old_deps new_deps deps) =
   changed_rows c old_deps new_deps (filter (\<lambda>dep. dep = k) deps)"
  by (induction deps) (auto simp: changed_rows_def split: option.splits)

lemma filter_tagged_rows:
  "filter (\<lambda>r. r ! 3 = k) (map (\<lambda>dep. [h, d, a, dep, ch]) deps) =
   map (\<lambda>dep. [h, d, a, dep, ch]) (filter (\<lambda>dep. dep = k) deps)"
  by (induction deps) auto

lemma set_order_distinct:
  assumes "\<And>xs. mset (set_order xs) = mset xs" and "distinct xs"
  shows "distinct (set_order xs) \<and> set (set_order xs) = set xs"
  using assms by (metis mset_eq_imp_distinct_iff mset_eq_setD)

section \<open>The comparison\<close>

text \<open>
  Claim C1. Let the loops visit each key set in some order (\<open>set_order\<close> rearranges a
  list without losing or repeating elements). Then the comparison of two snapshots never
  fails, and among the rows it appends those about a key \<open>k\<close> (fourth column) are: no row
  when \<open>k\<close> is in neither snapshot; exactly one \<^verbatim>\<open>added\<close> row when only the new one has
  it; exactly one \<^verbatim>\<open>removed\<close> row when only the old one has it; exactly one
  \<^verbatim>\<open>changed from X to Y\<close> row with both versions when both have it with different
  values (\<^verbatim>\<open>None\<close> against a version included); no row when both have it with the same
  value.
\<close>

theorem diff_classifies_each_key:
  assumes "\<And>xs. mset (set_order xs) = mset xs"
  shows "\<exists>st' new.
           diff_snapshots set_order c old_deps new_deps st = Inr st' \<and>
           rows st' = rows st @ new \<and>
           filter (\<lambda>r. r ! 3 = k) new =
             (case (map_of old_deps k, map_of new_deps k) of
                (None, None) \<Rightarrow> []
              | (None, Some new_v) \<Rightarrow>
                  [[hash c, committer_date c, author_name c, k, ''added'']]
              | (Some old_v, None) \<Rightarrow>
                  [[hash c, committer_date c, author_name c, k, ''removed'']]
              | (Some old_v, Some new_v) \<Rightarrow>
                  if old_v \<noteq> new_v
                  then [[hash c, committer_date c, author_name c, k,
                         ''changed from '' @ py_str old_v @ '' to '' @ py_str new_v]]
                  else [])"
proof -
  let ?A = "set_order (keys_minus new_deps old_deps)"
  let ?R = "set_order (keys_minus old_deps new_deps)"
  let ?I = "set_order (keys_inter old_deps new_deps)"
  have A: "distinct ?A \<and> set ?A = fst ` set new_deps - fst ` set old_deps"
    using set_order_distinct [OF assms distinct_keys_minus, of new_deps old_deps]
    by (simp add: set_keys_minus)
  have R: "distinct ?R \<and> set ?R = fst ` set old_deps - fst ` set new_deps"
    using set_order_distinct [OF assms distinct_keys_minus, of old_deps new_deps]
    by (simp add: set_keys_minus)
  have I: "distinct ?I \<and> set ?I = fst ` set old_deps \<inter> fst ` set new_deps"
    using set_order_distinct [OF assms distinct_keys_inter, of old_deps new_deps]
    by (simp add: set_keys_inter)
  from I obtain st' where st': "diff_snapshots set_order c old_deps new_deps st = Inr st'"
    using diff_snapshots_total [of set_order old_deps new_deps c st]
    by (auto simp: set_keys_inter)
  from diff_snapshots_rows [OF this]
  have rows: "rows st' = rows st @ diff_rows set_order c old_deps new_deps"
    by (simp add: emitted_def)
  have old: "(map_of old_deps k = None) = (k \<notin> fst ` set old_deps)"
    by (rule map_of_eq_None_iff)
  have new: "(map_of new_deps k = None) = (k \<notin> fst ` set new_deps)"
    by (rule map_of_eq_None_iff)
  have fA: "filter (\<lambda>dep. dep = k) ?A = (if k \<in> fst ` set new_deps - fst ` set old_deps then [k] else [])"
    using A by (simp add: filter_eq_distinct)
  have fR: "filter (\<lambda>dep. dep = k) ?R = (if k \<in> fst ` set old_deps - fst ` set new_deps then [k] else [])"
    using R by (simp add: filter_eq_distinct)
  have fI: "filter (\<lambda>dep. dep = k) ?I = (if k \<in> fst ` set old_deps \<inter> fst ` set new_deps then [k] else [])"
    using I by (simp add: filter_eq_distinct)
  have split: "filter (\<lambda>r. r ! 3 = k) (diff_rows set_order c old_deps new_deps) =
      map (\<lambda>dep. [hash c, committer_date c, author_name c, dep, ''added''])
        (filter (\<lambda>dep. dep = k) ?A) @
      map (\<lambda>dep. [hash c, committer_date c, author_name c, dep, ''removed''])
        (filter (\<lambda>dep. dep = k) ?R) @
      changed_rows c old_deps new_deps (filter (\<lambda>dep. dep = k) ?I)"
    by (simp add: diff_rows_def filter_changed_rows filter_tagged_rows)
  have "filter (\<lambda>r. r ! 3 = k) (diff_rows set_order c old_deps new_deps) =
             (case (map_of old_deps k, map_of new_deps k) of
                (None, None) \<Rightarrow> []
              | (None, Some new_v) \<Rightarrow>
                  [[hash c, committer_date c, author_name c, k, ''added'']]
              | (Some old_v, None) \<Rightarrow>
                  [[hash c, committer_date c, author_name c, k, ''removed'']]
              | (Some old_v, Some new_v) \<Rightarrow>
                  if old_v \<noteq> new_v
                  then [[hash c, committer_date c, author_name c, k,
                         ''changed from '' @ py_str old_v @ '' to '' @ py_str new_v]]
                  else [])"
    unfolding split fA fR fI
    using old new
    by (cases "map_of old_deps k"; cases "map_of new_deps k") (simp_all add: changed_rows_def)
  with st' rows show ?thesis
    by blast
qed

theorem diff_classifies_each_key_witness:
  "\<exists>st' new.
     diff_snapshots rev example_commit
       [(''g:a'', Some ''1.0''), (''g:b'', None), (''g:c'', Some ''3'')]
       [(''g:a'', Some ''2.0''), (''g:c'', Some ''3''), (''g:d'', None)]
       \<lparr>commits_with_changes = {}, rows = []\<rparr> = Inr st' \<and>
     rows st' = rows \<lparr>commits_with_changes = {}, rows = []\<rparr> @ new \<and>
     filter (\<lambda>r. r ! 3 = ''g:a'') new =
       [[''h1'', ''2024-01-01T00:00:00+00:00'', ''Ann'', ''g:a'', ''changed from 1.0 to 2.0'']]"
  using diff_classifies_each_key [of rev example_commit
       "[(''g:a'', Some ''1.0''), (''g:b'', None), (''g:c'', Some ''3'')]"
       "[(''g:a'', Some ''2.0''), (''g:c'', Some ''3''), (''g:d'', None)]"
       "\<lparr>commits_with_changes = {}, rows = []\<rparr>" "''g:a''", OF mset_rev]
  by (simp add: example_commit_def py_str_def)

section \<open>The report file\<close>

text \<open>
  Claim C8. A run that completes opens the file \<^verbatim>\<open>{owner}_{repo}_dependency_commits.csv\<close>
  with the encoding \<^verbatim>\<open>utf-8\<close> and writes the header row, its five column names joined by
  commas, followed by one comma-joined row per accumulated record; without records the
  header row is all it writes.
\<close>

theorem report_file:
  assumes "mine_repository set_order fromstring traverse_commits owner repo = Inr rep"
  shows "output_filename rep = owner @ ''_'' @ repo @ ''_dependency_commits.csv'' \<and>
         encoding rep = ''utf-8'' \<and>
         (\<exists>st. commits_loop set_order fromstring
                  (traverse_commits (''https://github.com/'' @ owner @ ''/'' @ repo))
                  \<lparr>commits_with_changes = {}, rows = []\<rparr> = Inr st \<and>
               written rep =
                 ''commit_hash,commit_date,commit_author,dependency,change_type'' @
                 [CHR 0x0D, CHR 0x0A] @ concat (map writerow (rows st)) \<and>
               (rows st = [] \<longrightarrow>
                  written rep =
                    ''commit_hash,commit_date,commit_author,dependency,change_type'' @
                    [CHR 0x0D, CHR 0x0A]))"
proof -
  have "writerow header =
          ''commit_hash,commit_date,commit_author,dependency,change_type'' @ [CHR 0x0D, CHR 0x0A]"
    by (simp add: writerow_def header_def csv_field_def)
  then show ?thesis
    using assms
    by (auto simp: mine_repository_def Let_def split: sum.splits)
qed

theorem report_file_witness:
  "mine_repository rev (\<lambda>_. None) (\<lambda>_. []) ''pac4j'' ''dropwizard-pac4j'' =
     Inr \<lparr>output_filename = ''pac4j_dropwizard-pac4j_dependency_commits.csv'',
          encoding = ''utf-8'',
          written = ''commit_hash,commit_date,commit_author,dependency,change_type'' @
                    [CHR 0x0D, CHR 0x0A],
          printed_count = 0\<rparr>"
  using report_file [of rev "\<lambda>_. None" "\<lambda>_. []" "''pac4j''" "''dropwizard-pac4j''"]
  by (simp add: mine_repository_def writerow_def header_def csv_field_def)

section \<open>The two extraction strategies\<close>

text \<open>
  The pattern-based scanner on the text of a written document: text, comments and every
  tag other than the two dependency tags are passed over, outside and inside a block, and
  the search for an identifier stops at the first element written as a \<open>simple_leaf\<close> of
  that name.
\<close>

lemma start_tag_prefix:
  "name_ok u \<Longrightarrow> name_ok n \<Longrightarrow> extra_ok x \<Longrightarrow>
   prefix (u @ ''>'') (n @ x @ ''>'' @ r) = (u = n \<and> x = [])"
proof (induction u arbitrary: n)
  case Nil
  then show ?case
    by (cases n; cases x) (auto simp: name_ok_def extra_ok_def isspace_def)
next
  case (Cons a u)
  show ?case
  proof (cases n)
    case Nil
    with Cons.prems show ?thesis
      by (cases x) (auto simp: name_ok_def extra_ok_def)
  next
    case (Cons c n')
    with Cons.prems Cons.IH [of n'] show ?thesis
      by (auto simp: name_ok_def)
  qed
qed

lemma empty_tag_prefix:
  "name_ok u \<Longrightarrow> name_ok n \<Longrightarrow> extra_ok x \<Longrightarrow> \<not> prefix (u @ ''>'') (n @ x @ ''/>'' @ r)"
proof (induction u arbitrary: n)
  case Nil
  then show ?case
    by (cases n; cases x) (auto simp: name_ok_def extra_ok_def isspace_def)
next
  case (Cons a u)
  show ?case
  proof (cases n)
    case Nil
    with Cons.prems show ?thesis
      by (cases x) (auto simp: name_ok_def extra_ok_def)
  next
    case (Cons c n')
    with Cons.prems Cons.IH [of n'] show ?thesis
      by (auto simp: name_ok_def)
  qed
qed

lemma end_tag_prefix:
  "name_ok u \<Longrightarrow> name_ok n \<Longrightarrow> prefix (u @ ''>'') (n @ ''>'' @ r) = (u = n)"
  using start_tag_prefix [of u n "[]" r] by (simp add: extra_ok_def)

lemma name_ok_literals:
  "name_ok ''dependency''" "name_ok ''groupId''" "name_ok ''artifactId''" "name_ok ''version''"
  by (simp_all add: name_ok_def isspace_def)

lemma misc_ok_no_lt: "CHR ''<'' \<notin> set s \<Longrightarrow> misc_ok s"
  by (induction s rule: misc_ok.induct) auto

lemma scan_out_misc: "misc_ok s \<Longrightarrow> findall_scan None (s @ r) = findall_scan None r"
  by (induction s rule: misc_ok.induct) auto

lemma scan_in_misc:
  "misc_ok s \<Longrightarrow> findall_scan (Some acc) (s @ r) = findall_scan (Some (rev s @ acc)) r"
  by (induction s arbitrary: acc rule: misc_ok.induct) auto

lemma scan_out_chunk:
  assumes "\<not> prefix ''<dependency>'' (CHR ''<'' # s @ r)" and "CHR ''<'' \<notin> set s"
  shows "findall_scan None (CHR ''<'' # s @ r) = findall_scan None r"
  using assms scan_out_misc [OF misc_ok_no_lt, of s r] by auto

lemma scan_in_chunk:
  assumes "\<not> prefix ''</dependency>'' (CHR ''<'' # s @ r)" and "CHR ''<'' \<notin> set s"
  shows "findall_scan (Some acc) (CHR ''<'' # s @ r) =
         findall_scan (Some (rev s @ CHR ''<'' # acc)) r"
  using assms scan_in_misc [OF misc_ok_no_lt, of s "CHR ''<'' # acc" r] by auto

lemma tag_chunk_no_lt:
  "CHR ''<'' \<notin> set e \<Longrightarrow> name_ok n \<Longrightarrow> extra_ok x \<Longrightarrow> CHR ''<'' \<notin> set (n @ x @ e)"
  by (auto simp: name_ok_def extra_ok_def)

lemma scan_open_dependency:
  "findall_scan None (''<dependency>'' @ r) = findall_scan (Some []) r"
  by simp

lemma scan_close_dependency:
  "findall_scan (Some acc) (''</dependency>'' @ r) = rev acc # findall_scan None r"
  by simp

lemma scan_out_start:
  assumes "name_ok n" and "extra_ok x" and "\<not> (n = ''dependency'' \<and> x = [])"
  shows "findall_scan None (''<'' @ n @ x @ ''>'' @ r) = findall_scan None r"
proof -
  have "\<not> prefix (''dependency'' @ ''>'') (n @ x @ ''>'' @ r)"
    using assms start_tag_prefix [OF name_ok_literals(1) assms(1,2), of r] by auto
  then have "\<not> prefix ''<dependency>'' (CHR ''<'' # (n @ x @ ''>'') @ r)"
    by simp
  moreover have "CHR ''<'' \<notin> set (n @ x @ ''>'')"
    using assms(1,2) by (intro tag_chunk_no_lt) auto
  ultimately have "findall_scan None (CHR ''<'' # (n @ x @ ''>'') @ r) = findall_scan None r"
    by (rule scan_out_chunk)
  then show ?thesis by simp
qed

lemma scan_out_empty:
  assumes "name_ok n" and "extra_ok x"
  shows "findall_scan None (''<'' @ n @ x @ ''/>'' @ r) = findall_scan None r"
proof -
  have "\<not> prefix (''dependency'' @ ''>'') (n @ x @ ''/>'' @ r)"
    by (rule empty_tag_prefix [OF name_ok_literals(1) assms])
  then have "\<not> prefix ''<dependency>'' (CHR ''<'' # (n @ x @ ''/>'') @ r)"
    by simp
  moreover have "CHR ''<'' \<notin> set (n @ x @ ''/>'')"
    using assms by (intro tag_chunk_no_lt) auto
  ultimately have "findall_scan None (CHR ''<'' # (n @ x @ ''/>'') @ r) = findall_scan None r"
    by (rule scan_out_chunk)
  then show ?thesis by simp
qed

lemma scan_out_end:
  assumes "name_ok n"
  shows "findall_scan None (''</'' @ n @ ''>'' @ r) = findall_scan None r"
proof -
  have "\<not> prefix ''<dependency>'' (CHR ''<'' # (''/'' @ n @ ''>'') @ r)"
    by simp
  moreover have "CHR ''<'' \<notin> set (''/'' @ n @ ''>'')"
    using assms by (auto simp: name_ok_def)
  ultimately have "findall_scan None (CHR ''<'' # (''/'' @ n @ ''>'') @ r) = findall_scan None r"
    by (rule scan_out_chunk)
  then show ?thesis by simp
qed

lemma not_close_prefix:
  assumes "name_ok n" and "x = [] \<or> isspace (hd x)" and "e = ''>'' \<or> e = ''/>''"
  shows "\<not> prefix ''</dependency>'' (CHR ''<'' # (n @ x @ e) @ r)"
  using assms by (cases n; cases x) (auto simp: name_ok_def isspace_def)

lemma scan_in_start:
  assumes "name_ok n" and "extra_ok x"
  shows "findall_scan (Some acc) (''<'' @ n @ x @ ''>'' @ r) =
         findall_scan (Some (rev (''<'' @ n @ x @ ''>'') @ acc)) r"
proof -
  have "\<not> prefix ''</dependency>'' (CHR ''<'' # (n @ x @ ''>'') @ r)"
    using assms by (intro not_close_prefix) (auto simp: extra_ok_def)
  moreover have "CHR ''<'' \<notin> set (n @ x @ ''>'')"
    using assms by (intro tag_chunk_no_lt) auto
  ultimately have "findall_scan (Some acc) (CHR ''<'' # (n @ x @ ''>'') @ r) =
      findall_scan (Some (rev (n @ x @ ''>'') @ CHR ''<'' # acc)) r"
    by (rule scan_in_chunk)
  then show ?thesis by simp
qed

lemma scan_in_empty:
  assumes "name_ok n" and "extra_ok x"
  shows "findall_scan (Some acc) (''<'' @ n @ x @ ''/>'' @ r) =
         findall_scan (Some (rev (''<'' @ n @ x @ ''/>'') @ acc)) r"
proof -
  have "\<not> prefix ''</dependency>'' (CHR ''<'' # (n @ x @ ''/>'') @ r)"
    using assms by (intro not_close_prefix) (auto simp: extra_ok_def)
  moreover have "CHR ''<'' \<notin> set (n @ x @ ''/>'')"
    using assms by (intro tag_chunk_no_lt) auto
  ultimately have "findall_scan (Some acc) (CHR ''<'' # (n @ x @ ''/>'') @ r) =
      findall_scan (Some (rev (n @ x @ ''/>'') @ CHR ''<'' # acc)) r"
    by (rule scan_in_chunk)
  then show ?thesis by simp
qed

lemma scan_in_end:
  assumes "name_ok n" and "n \<noteq> ''dependency''"
  shows "findall_scan (Some acc) (''</'' @ n @ ''>'' @ r) =
         findall_scan (Some (rev (''</'' @ n @ ''>'') @ acc)) r"
proof -
  have "\<not> prefix (''dependency'' @ ''>'') (n @ ''>'' @ r)"
    using assms end_tag_prefix [OF name_ok_literals(1) assms(1), of r] by auto
  then have "\<not> prefix ''</dependency>'' (CHR ''<'' # (''/'' @ n @ ''>'') @ r)"
    by simp
  moreover have "CHR ''<'' \<notin> set (''/'' @ n @ ''>'')"
    using assms by (auto simp: name_ok_def)
  ultimately have "findall_scan (Some acc) (CHR ''<'' # (''/'' @ n @ ''>'') @ r) =
      findall_scan (Some (rev (''/'' @ n @ ''>'') @ CHR ''<'' # acc)) r"
    by (rule scan_in_chunk)
  then show ?thesis by simp
qed

lemma scan_in_forest:
  assumes "\<And>k acc r. k \<in> set ks \<Longrightarrow>
             findall_scan (Some acc) (render k @ r) = findall_scan (Some (rev (render k) @ acc)) r"
  shows "findall_scan (Some acc) (concat (map render ks) @ r) =
         findall_scan (Some (rev (concat (map render ks)) @ acc)) r"
  using assms by (induction ks arbitrary: acc) simp_all

lemma dep_free_kid:
  "dep_free (Markup n x tx ks ta) \<Longrightarrow> k \<in> set ks \<Longrightarrow> dep_free k"
  by (auto simp: dep_free_def)

lemma scan_in_tree:
  "well_written m \<Longrightarrow> dep_free m \<Longrightarrow>
   findall_scan (Some acc) (render m @ r) = findall_scan (Some (rev (render m) @ acc)) r"
proof (induction m arbitrary: acc r)
  case (Markup n x tx ks ta)
  have n: "name_ok n" "n \<noteq> ''dependency''" and x: "extra_ok x"
    using Markup.prems by (auto simp: dep_free_def)
  have tx: "misc_ok (opt_text tx)" and ta: "misc_ok (opt_text ta)"
    using Markup.prems by auto
  have kids: "findall_scan (Some acc) (render k @ r) = findall_scan (Some (rev (render k) @ acc)) r"
    if "k \<in> set ks" for k acc r
    using that Markup.IH [of k acc r] Markup.prems dep_free_kid [of n x tx ks ta k]
    by auto
  have "findall_scan (Some acc) (render (Markup n x tx ks ta) @ r) =
        findall_scan (Some acc)
          (''<'' @ n @ x @ ''>'' @ opt_text tx @ concat (map render ks) @ ''</'' @ n @ ''>'' @
           opt_text ta @ r)"
    by simp
  also have "\<dots> = findall_scan (Some (rev (''<'' @ n @ x @ ''>'') @ acc))
          (opt_text tx @ concat (map render ks) @ ''</'' @ n @ ''>'' @ opt_text ta @ r)"
    by (rule scan_in_start [OF n(1) x])
  also have "\<dots> = findall_scan (Some (rev (opt_text tx) @ rev (''<'' @ n @ x @ ''>'') @ acc))
          (concat (map render ks) @ ''</'' @ n @ ''>'' @ opt_text ta @ r)"
    by (rule scan_in_misc [OF tx])
  also have "\<dots> = findall_scan
          (Some (rev (concat (map render ks)) @ rev (opt_text tx) @ rev (''<'' @ n @ x @ ''>'') @ acc))
          (''</'' @ n @ ''>'' @ opt_text ta @ r)"
    by (rule scan_in_forest) (rule kids)
  also have "\<dots> = findall_scan
          (Some (rev (''</'' @ n @ ''>'') @ rev (concat (map render ks)) @ rev (opt_text tx) @
                 rev (''<'' @ n @ x @ ''>'') @ acc))
          (opt_text ta @ r)"
    by (rule scan_in_end [OF n])
  also have "\<dots> = findall_scan
          (Some (rev (opt_text ta) @ rev (''</'' @ n @ ''>'') @ rev (concat (map render ks)) @
                 rev (opt_text tx) @ rev (''<'' @ n @ x @ ''>'') @ acc))
          r"
    by (rule scan_in_misc [OF ta])
  finally show ?case
    by simp
next
  case (EmptyTag n x ta)
  have n: "name_ok n" and x: "extra_ok x" and ta: "misc_ok (opt_text ta)"
    using EmptyTag.prems by auto
  have "findall_scan (Some acc) (render (EmptyTag n x ta) @ r) =
        findall_scan (Some acc) (''<'' @ n @ x @ ''/>'' @ opt_text ta @ r)"
    by simp
  also have "\<dots> = findall_scan (Some (rev (''<'' @ n @ x @ ''/>'') @ acc)) (opt_text ta @ r)"
    by (rule scan_in_empty [OF n x])
  also have "\<dots> = findall_scan (Some (rev (opt_text ta) @ rev (''<'' @ n @ x @ ''/>'') @ acc)) r"
    by (rule scan_in_misc [OF ta])
  finally show ?case
    by simp
qed

lemma scan_out_forest:
  assumes "\<And>k r. k \<in> set ks \<Longrightarrow>
             findall_scan None (render k @ r) =
               map inner (filter (\<lambda>d. mname d = ''dependency'') (k # written_descendants k)) @
               findall_scan None r"
  shows "findall_scan None (concat (map render ks) @ r) =
         map inner (filter (\<lambda>d. mname d = ''dependency'')
                      (concat (map (\<lambda>k. k # written_descendants k) ks))) @
         findall_scan None r"
  using assms by (induction ks) simp_all

lemma dep_free_filter:
  "\<forall>k \<in> set ks. dep_free k \<Longrightarrow>
   filter (\<lambda>d. mname d = ''dependency'') (concat (map (\<lambda>k. k # written_descendants k) ks)) = []"
  by (auto simp: dep_free_def filter_empty_conv)

lemma entries_flat_kid:
  "entries_flat (Markup n x tx ks ta) \<Longrightarrow> k \<in> set ks \<Longrightarrow> entries_flat k"
  by (auto simp: entries_flat_def)

lemma scan_out_tree:
  "well_written m \<Longrightarrow> entries_flat m \<Longrightarrow>
   findall_scan None (render m @ r) =
     map inner (filter (\<lambda>d. mname d = ''dependency'') (m # written_descendants m)) @
     findall_scan None r"
proof (induction m arbitrary: r)
  case (Markup n x tx ks ta)
  have n: "name_ok n" and x: "extra_ok x"
    using Markup.prems by auto
  have tx: "misc_ok (opt_text tx)" and ta: "misc_ok (opt_text ta)"
    using Markup.prems by auto
  show ?case
  proof (cases "n = ''dependency''")
    case True
    have shape: "x = []" "\<forall>k \<in> set ks. dep_free k"
      using Markup.prems(2) True by (simp_all add: entries_flat_def entry_shape_def)
    have kids: "findall_scan (Some acc) (render k @ r) =
                findall_scan (Some (rev (render k) @ acc)) r"
      if "k \<in> set ks" for k acc r
      using that shape Markup.prems(1) by (auto intro: scan_in_tree)
    have "findall_scan None (render (Markup n x tx ks ta) @ r) =
          findall_scan None
            (''<dependency>'' @ opt_text tx @ concat (map render ks) @ ''</dependency>'' @
             opt_text ta @ r)"
      using True shape by simp
    also have "\<dots> = findall_scan (Some [])
            (opt_text tx @ concat (map render ks) @ ''</dependency>'' @ opt_text ta @ r)"
      by (rule scan_open_dependency)
    also have "\<dots> = findall_scan (Some (rev (opt_text tx) @ []))
            (concat (map render ks) @ ''</dependency>'' @ opt_text ta @ r)"
      by (rule scan_in_misc [OF tx])
    also have "\<dots> = findall_scan (Some (rev (concat (map render ks)) @ rev (opt_text tx) @ []))
            (''</dependency>'' @ opt_text ta @ r)"
      by (rule scan_in_forest) (rule kids)
    also have "\<dots> = rev (rev (concat (map render ks)) @ rev (opt_text tx) @ []) #
                     findall_scan None (opt_text ta @ r)"
      by (rule scan_close_dependency)
    also have "\<dots> = inner (Markup n x tx ks ta) # findall_scan None r"
      using scan_out_misc [OF ta, of r] by (simp add: inner_def)
    finally show ?thesis
      using True dep_free_filter [OF shape(2)] by simp
  next
    case False
    have kids: "findall_scan None (render k @ r) =
               map inner (filter (\<lambda>d. mname d = ''dependency'') (k # written_descendants k)) @
               findall_scan None r"
      if "k \<in> set ks" for k r
      using that Markup.IH [of k r] Markup.prems entries_flat_kid [of n x tx ks ta k]
      by auto
    have "findall_scan None (render (Markup n x tx ks ta) @ r) =
          findall_scan None
            (''<'' @ n @ x @ ''>'' @ opt_text tx @ concat (map render ks) @ ''</'' @ n @ ''>'' @
             opt_text ta @ r)"
      by simp
    also have "\<dots> = findall_scan None
            (opt_text tx @ concat (map render ks) @ ''</'' @ n @ ''>'' @ opt_text ta @ r)"
      using False by (intro scan_out_start [OF n x]) simp
    also have "\<dots> = findall_scan None
            (concat (map render ks) @ ''</'' @ n @ ''>'' @ opt_text ta @ r)"
      by (rule scan_out_misc [OF tx])
    also have "\<dots> = map inner (filter (\<lambda>d. mname d = ''dependency'')
                      (concat (map (\<lambda>k. k # written_descendants k) ks))) @
         findall_scan None (''</'' @ n @ ''>'' @ opt_text ta @ r)"
      by (rule scan_out_forest) (rule kids)
    also have "findall_scan None (''</'' @ n @ ''>'' @ opt_text ta @ r) =
               findall_scan None (opt_text ta @ r)"
      by (rule scan_out_end [OF n])
    also have "findall_scan None (opt_text ta @ r) = findall_scan None r"
      by (rule scan_out_misc [OF ta])
    finally show ?thesis
      using False by simp
  qed
next
  case (EmptyTag n x ta)
  have n: "name_ok n" and x: "extra_ok x" and ta: "misc_ok (opt_text ta)"
    using EmptyTag.prems by auto
  have "n \<noteq> ''dependency''"
    using EmptyTag.prems(2) by (auto simp: entries_flat_def entry_shape_def)
  moreover have "findall_scan None (render (EmptyTag n x ta) @ r) =
        findall_scan None (''<'' @ n @ x @ ''/>'' @ opt_text ta @ r)"
    by simp
  moreover have "\<dots> = findall_scan None (opt_text ta @ r)"
    by (rule scan_out_empty [OF n x])
  moreover have "\<dots> = findall_scan None r"
    by (rule scan_out_misc [OF ta])
  ultimately show ?case
    by simp
qed

lemma takeWhile_run:
  "CHR ''<'' \<notin> set s \<Longrightarrow> takeWhile (\<lambda>c. c \<noteq> CHR ''<'') (s @ CHR ''<'' # r) = s"
  by (induction s) auto

lemma dropWhile_run:
  "CHR ''<'' \<notin> set s \<Longrightarrow>
   dropWhile (\<lambda>c. c \<noteq> CHR ''<'') (s @ CHR ''<'' # r) = CHR ''<'' # r"
  by (induction s) auto

lemma find_append:
  "List.find P (xs @ ys) = (case List.find P xs of None \<Rightarrow> List.find P ys | Some x \<Rightarrow> Some x)"
  by (induction xs) auto

lemma match_elem_other_char: "c \<noteq> CHR ''<'' \<Longrightarrow> match_elem name (c # r) = None"
  by (simp add: match_elem_def)

lemma match_elem_misc:
  "name_ok name \<Longrightarrow> d = CHR ''?'' \<or> d = CHR ''!'' \<Longrightarrow> match_elem name (c # d # r) = None"
  by (cases name) (auto simp: match_elem_def name_ok_def)

lemma match_elem_start:
  assumes "name_ok name" and "name_ok n" and "extra_ok x" and "\<not> (n = name \<and> x = [])"
  shows "match_elem name (''<'' @ n @ x @ ''>'' @ r) = None"
proof -
  have "\<not> prefix (name @ ''>'') (n @ x @ ''>'' @ r)"
    using assms start_tag_prefix [of name n x r] by auto
  then show ?thesis
    by (simp add: match_elem_def)
qed

lemma match_elem_empty:
  assumes "name_ok name" and "name_ok n" and "extra_ok x"
  shows "match_elem name (''<'' @ n @ x @ ''/>'' @ r) = None"
proof -
  have "\<not> prefix (name @ ''>'') (n @ x @ ''/>'' @ r)"
    by (rule empty_tag_prefix [OF assms])
  then show ?thesis
    by (simp add: match_elem_def)
qed

lemma match_elem_end:
  assumes "name_ok name"
  shows "match_elem name (''</'' @ n @ ''>'' @ r) = None"
  using assms by (cases name) (auto simp: match_elem_def name_ok_def)

lemma match_elem_hit:
  assumes "s \<noteq> []" and "CHR ''<'' \<notin> set s"
  shows "match_elem name (''<'' @ name @ ''>'' @ s @ ''</'' @ name @ ''>'' @ r) = Some s"
proof -
  have "takeWhile (\<lambda>c. c \<noteq> CHR ''<'') (s @ ''</'' @ name @ ''>'' @ r) = s"
    using assms(2) by (simp add: takeWhile_run)
  moreover have "dropWhile (\<lambda>c. c \<noteq> CHR ''<'') (s @ ''</'' @ name @ ''>'' @ r) =
                 ''</'' @ name @ ''>'' @ r"
    using assms(2) by (simp add: dropWhile_run)
  ultimately show ?thesis
    using assms(1) by (simp add: match_elem_def)
qed

lemma search_misc:
  "name_ok name \<Longrightarrow> misc_ok s \<Longrightarrow> re_search_elem name (s @ r) = re_search_elem name r"
proof (induction s rule: misc_ok.induct)
  case 1
  show ?case by simp
next
  case (2 c)
  then show ?case by (simp add: match_elem_other_char)
next
  case (3 c d s)
  have "match_elem name (c # d # s @ r) = None"
  proof (cases "c = CHR ''<''")
    case True
    with 3 show ?thesis by (intro match_elem_misc) auto
  next
    case False
    then show ?thesis by (rule match_elem_other_char)
  qed
  with 3 show ?case by simp
qed

lemma search_chunk:
  assumes "name_ok name" and "match_elem name (CHR ''<'' # s @ r) = None" and "CHR ''<'' \<notin> set s"
  shows "re_search_elem name (CHR ''<'' # s @ r) = re_search_elem name r"
  using assms search_misc [OF assms(1) misc_ok_no_lt, of s r] by simp

lemma search_start:
  assumes "name_ok name" and "name_ok n" and "extra_ok x" and "\<not> (n = name \<and> x = [])"
  shows "re_search_elem name (''<'' @ n @ x @ ''>'' @ r) = re_search_elem name r"
proof -
  have "match_elem name (CHR ''<'' # (n @ x @ ''>'') @ r) = None"
    using match_elem_start [OF assms, of r] by simp
  moreover have "CHR ''<'' \<notin> set (n @ x @ ''>'')"
    using assms(2,3) by (intro tag_chunk_no_lt) auto
  ultimately have "re_search_elem name (CHR ''<'' # (n @ x @ ''>'') @ r) = re_search_elem name r"
    by (intro search_chunk [OF assms(1)])
  then show ?thesis by simp
qed

lemma search_empty:
  assumes "name_ok name" and "name_ok n" and "extra_ok x"
  shows "re_search_elem name (''<'' @ n @ x @ ''/>'' @ r) = re_search_elem name r"
proof -
  have "match_elem name (CHR ''<'' # (n @ x @ ''/>'') @ r) = None"
    using match_elem_empty [OF assms, of r] by simp
  moreover have "CHR ''<'' \<notin> set (n @ x @ ''/>'')"
    using assms(2,3) by (intro tag_chunk_no_lt) auto
  ultimately have "re_search_elem name (CHR ''<'' # (n @ x @ ''/>'') @ r) = re_search_elem name r"
    by (intro search_chunk [OF assms(1)])
  then show ?thesis by simp
qed

lemma search_end:
  assumes "name_ok name" and "name_ok n"
  shows "re_search_elem name (''</'' @ n @ ''>'' @ r) = re_search_elem name r"
proof -
  have "match_elem name (CHR ''<'' # (''/'' @ n @ ''>'') @ r) = None"
    using match_elem_end [OF assms(1), of n r] by simp
  moreover have "CHR ''<'' \<notin> set (''/'' @ n @ ''>'')"
    using assms(2) by (auto simp: name_ok_def)
  ultimately have "re_search_elem name (CHR ''<'' # (''/'' @ n @ ''>'') @ r) =
                   re_search_elem name r"
    by (intro search_chunk [OF assms(1)])
  then show ?thesis by simp
qed

lemma search_hit:
  assumes "s \<noteq> []" and "CHR ''<'' \<notin> set s"
  shows "re_search_elem name (''<'' @ name @ ''>'' @ s @ ''</'' @ name @ ''>'' @ r) = Some s"
  using match_elem_hit [OF assms, of name r] by simp

lemma search_forest_none:
  assumes "\<And>k r. k \<in> set ks \<Longrightarrow> re_search_elem name (render k @ r) = re_search_elem name r"
  shows "re_search_elem name (concat (map render ks) @ r) = re_search_elem name r"
  using assms by (induction ks) simp_all

lemma search_tree_none:
  "well_written m \<Longrightarrow> name_ok name \<Longrightarrow>
   \<forall>k \<in> set (m # written_descendants m). mname k \<noteq> name \<Longrightarrow>
   re_search_elem name (render m @ r) = re_search_elem name r"
proof (induction m arbitrary: r)
  case (Markup n x tx ks ta)
  have n: "name_ok n" "n \<noteq> name" and x: "extra_ok x"
    using Markup.prems by auto
  have tx: "misc_ok (opt_text tx)" and ta: "misc_ok (opt_text ta)"
    using Markup.prems by auto
  have kids: "re_search_elem name (render k @ r) = re_search_elem name r"
    if "k \<in> set ks" for k r
    using that Markup.IH [of k r] Markup.prems by auto
  have "re_search_elem name (render (Markup n x tx ks ta) @ r) =
        re_search_elem name
          (''<'' @ n @ x @ ''>'' @ opt_text tx @ concat (map render ks) @ ''</'' @ n @ ''>'' @
           opt_text ta @ r)"
    by simp
  also have "\<dots> = re_search_elem name
          (opt_text tx @ concat (map render ks) @ ''</'' @ n @ ''>'' @ opt_text ta @ r)"
    using n(2) by (intro search_start [OF Markup.prems(2) n(1) x]) simp
  also have "\<dots> = re_search_elem name
          (concat (map render ks) @ ''</'' @ n @ ''>'' @ opt_text ta @ r)"
    by (rule search_misc [OF Markup.prems(2) tx])
  also have "\<dots> = re_search_elem name (''</'' @ n @ ''>'' @ opt_text ta @ r)"
    by (rule search_forest_none) (rule kids)
  also have "\<dots> = re_search_elem name (opt_text ta @ r)"
    by (rule search_end [OF Markup.prems(2) n(1)])
  also have "\<dots> = re_search_elem name r"
    by (rule search_misc [OF Markup.prems(2) ta])
  finally show ?case .
next
  case (EmptyTag n x ta)
  have n: "name_ok n" and x: "extra_ok x" and ta: "misc_ok (opt_text ta)"
    using EmptyTag.prems by auto
  have "re_search_elem name (render (EmptyTag n x ta) @ r) =
        re_search_elem name (''<'' @ n @ x @ ''/>'' @ opt_text ta @ r)"
    by simp
  also have "\<dots> = re_search_elem name (opt_text ta @ r)"
    by (rule search_empty [OF EmptyTag.prems(2) n x])
  also have "\<dots> = re_search_elem name r"
    by (rule search_misc [OF EmptyTag.prems(2) ta])
  finally show ?case .
qed

lemma search_forest_some:
  assumes "\<forall>k \<in> set ks. well_written k" and "name_ok name"
    and "\<And>k r. k \<in> set ks \<Longrightarrow>
           List.find (\<lambda>y. mname y = name) (k # written_descendants k) = Some x \<Longrightarrow>
           re_search_elem name (render k @ r) = Some (opt_text (mtext x))"
    and "List.find (\<lambda>y. mname y = name) (concat (map (\<lambda>k. k # written_descendants k) ks)) = Some x"
  shows "re_search_elem name (concat (map render ks) @ r) = Some (opt_text (mtext x))"
  using assms
proof (induction ks)
  case Nil
  then show ?case by simp
next
  case (Cons k ks)
  have split: "(case List.find (\<lambda>y. mname y = name) (k # written_descendants k) of
                  None \<Rightarrow> List.find (\<lambda>y. mname y = name)
                            (concat (map (\<lambda>k. k # written_descendants k) ks))
                | Some y \<Rightarrow> Some y) = Some x"
    using Cons.prems(4)
      find_append [of "\<lambda>y. mname y = name" "k # written_descendants k"
                      "concat (map (\<lambda>k. k # written_descendants k) ks)"]
    by (simp del: find.simps)
  show ?case
  proof (cases "List.find (\<lambda>y. mname y = name) (k # written_descendants k)")
    case None
    then have none: "\<forall>y \<in> set (k # written_descendants k). mname y \<noteq> name"
      by (simp only: find_None_iff) blast
    from None split
    have "List.find (\<lambda>y. mname y = name) (concat (map (\<lambda>k. k # written_descendants k) ks)) =
          Some x"
      by (simp del: find.simps)
    then have "re_search_elem name (concat (map render ks) @ r) = Some (opt_text (mtext x))"
      using Cons.IH Cons.prems(1-3) by auto
    moreover have "re_search_elem name (render k @ concat (map render ks) @ r) =
                   re_search_elem name (concat (map render ks) @ r)"
      using search_tree_none [OF _ Cons.prems(2) none] Cons.prems(1) by auto
    ultimately show ?thesis by simp
  next
    case (Some y)
    with split have "x = y"
      by (simp del: find.simps)
    then show ?thesis
      using Cons.prems(3) [of k "concat (map render ks) @ r"] Some by simp
  qed
qed

lemma search_tree_some:
  "well_written m \<Longrightarrow> name_ok name \<Longrightarrow> simple_leaf x \<Longrightarrow>
   List.find (\<lambda>y. mname y = name) (m # written_descendants m) = Some x \<Longrightarrow>
   re_search_elem name (render m @ r) = Some (opt_text (mtext x))"
proof (induction m arbitrary: r)
  case (Markup n e tx ks ta)
  have n: "name_ok n" and e: "extra_ok e"
    using Markup.prems by auto
  have tx: "misc_ok (opt_text tx)"
    using Markup.prems by auto
  show ?case
  proof (cases "n = name")
    case True
    then have x: "x = Markup n e tx ks ta"
      using Markup.prems(4) by simp
    with Markup.prems(3) have leaf: "e = []" "ks = []" "opt_text tx \<noteq> []"
      "CHR ''<'' \<notin> set (opt_text tx)"
      by (auto simp: simple_leaf_def plain_text_def opt_text_def split: option.splits)
    then show ?thesis
      using search_hit [OF leaf(3,4), of name "opt_text ta @ r"] True x
      by simp
  next
    case False
    have kids: "re_search_elem name (render k @ r) = Some (opt_text (mtext x))"
      if "k \<in> set ks" "List.find (\<lambda>y. mname y = name) (k # written_descendants k) = Some x"
      for k r
      using that Markup.IH [of k r] Markup.prems by auto
    have found: "List.find (\<lambda>y. mname y = name)
                   (concat (map (\<lambda>k. k # written_descendants k) ks)) = Some x"
      using Markup.prems(4) False by simp
    have "re_search_elem name (render (Markup n e tx ks ta) @ r) =
          re_search_elem name
            (''<'' @ n @ e @ ''>'' @ opt_text tx @ concat (map render ks) @
             (''</'' @ n @ ''>'' @ opt_text ta @ r))"
      by simp
    also have "\<dots> = re_search_elem name
            (opt_text tx @ concat (map render ks) @ (''</'' @ n @ ''>'' @ opt_text ta @ r))"
      using False by (intro search_start [OF Markup.prems(2) n e]) simp
    also have "\<dots> = re_search_elem name
            (concat (map render ks) @ (''</'' @ n @ ''>'' @ opt_text ta @ r))"
      by (rule search_misc [OF Markup.prems(2) tx])
    also have "\<dots> = Some (opt_text (mtext x))"
      using Markup.prems(1) by (intro search_forest_some [OF _ Markup.prems(2) kids found]) auto
    finally show ?thesis .
  qed
next
  case (EmptyTag n e ta)
  then show ?case
    by (auto simp: simple_leaf_def split: if_splits)
qed

lemma qualify_inj: "(qualify ns a = qualify ns b) = (a = b)"
  by (auto simp: qualify_def split: option.splits)

lemma reads_as_tag: "reads_as ns m e \<Longrightarrow> tag e = qualify ns (mname m)"
  by (cases m) auto

lemma reads_as_kids: "reads_as ns m e \<Longrightarrow> list_all2 (reads_as ns) (mkids m) (children e)"
  by (cases m) auto

lemma reads_as_descendants:
  "reads_as ns m e \<Longrightarrow> list_all2 (reads_as ns) (written_descendants m) (descendants e)"
proof (induction m arbitrary: e)
  case (Markup n x tx ks ta)
  obtain t nm et cs tl where e: "e = Element t nm et cs tl"
    by (cases e)
  have kids: "list_all2 (reads_as ns) ks cs"
    using Markup.prems e by simp
  have "list_all2 (reads_as ns) (concat (map (\<lambda>k. k # written_descendants k) ks))
          (concat (map (\<lambda>c. c # descendants c) cs))"
    using kids Markup.IH
  proof (induction ks cs rule: list_all2_induct)
    case Nil
    show ?case by simp
  next
    case (Cons k ks c cs)
    have "list_all2 (reads_as ns) (written_descendants k) (descendants c)"
      using Cons.hyps(1) Cons.prems [of k c] by simp
    moreover have "list_all2 (reads_as ns) (concat (map (\<lambda>k. k # written_descendants k) ks))
          (concat (map (\<lambda>c. c # descendants c) cs))"
      using Cons.IH Cons.prems by simp
    ultimately show ?case
      using Cons.hyps(1) by (simp add: list_all2_appendI)
  qed
  with e show ?case by simp
next
  case (EmptyTag n x ta)
  then show ?case by (cases e) simp
qed

lemma reads_as_filter:
  "list_all2 (reads_as ns) ms es \<Longrightarrow>
   list_all2 (reads_as ns) (filter (\<lambda>m. mname m = name) ms)
     (filter (\<lambda>e. tag e = qualify ns name) es)"
  by (induction ms es rule: list_all2_induct) (auto simp: reads_as_tag qualify_inj)

lemma reads_as_find:
  "list_all2 (reads_as ns) ms es \<Longrightarrow>
   rel_option (reads_as ns) (List.find (\<lambda>m. mname m = name) ms)
     (List.find (\<lambda>e. tag e = qualify ns name) es)"
  by (induction ms es rule: list_all2_induct) (auto simp: reads_as_tag qualify_inj)

lemma search_inner_some:
  assumes "well_written d" and "name_ok name" and "simple_leaf x"
    and "List.find (\<lambda>y. mname y = name) (written_descendants d) = Some x"
  shows "re_search_elem name (inner d) = Some (opt_text (mtext x))"
proof (cases d)
  case (Markup n e tx ks ta)
  have tx: "misc_ok (opt_text tx)"
    using assms(1) Markup by auto
  have kids: "re_search_elem name (render k @ r) = Some (opt_text (mtext x))"
    if "k \<in> set ks" "List.find (\<lambda>y. mname y = name) (k # written_descendants k) = Some x"
    for k r
    using that assms(1-3) Markup by (auto intro: search_tree_some)
  have found: "List.find (\<lambda>y. mname y = name)
                 (concat (map (\<lambda>k. k # written_descendants k) ks)) = Some x"
    using assms(4) Markup by simp
  have "re_search_elem name (inner d) =
        re_search_elem name (opt_text tx @ concat (map render ks) @ [])"
    using Markup by (simp add: inner_def)
  also have "\<dots> = re_search_elem name (concat (map render ks) @ [])"
    by (rule search_misc [OF assms(2) tx])
  also have "\<dots> = Some (opt_text (mtext x))"
    using assms(1) Markup by (intro search_forest_some [OF _ assms(2) kids found]) auto
  finally show ?thesis .
next
  case (EmptyTag n e ta)
  with assms(4) show ?thesis by simp
qed

lemma search_inner_none:
  assumes "well_written d" and "name_ok name"
    and "\<forall>k \<in> set (written_descendants d). mname k \<noteq> name"
  shows "re_search_elem name (inner d) = None"
proof (cases d)
  case (Markup n e tx ks ta)
  have tx: "misc_ok (opt_text tx)"
    using assms(1) Markup by auto
  have kids: "re_search_elem name (render k @ r) = re_search_elem name r"
    if "k \<in> set ks" for k r
    using that assms Markup by (intro search_tree_none) auto
  have "re_search_elem name (inner d) =
        re_search_elem name (opt_text tx @ concat (map render ks) @ [])"
    using Markup by (simp add: inner_def)
  also have "\<dots> = re_search_elem name (concat (map render ks) @ [])"
    by (rule search_misc [OF assms(2) tx])
  also have "\<dots> = re_search_elem name []"
    by (rule search_forest_none) (rule kids)
  finally show ?thesis by simp
next
  case (EmptyTag n e ta)
  then show ?thesis by (simp add: inner_def opt_text_def)
qed

lemma kids_descendants: "set (mkids d) \<subseteq> set (written_descendants d)"
  by (cases d) auto

lemma well_written_descendants:
  "well_written m \<Longrightarrow> k \<in> set (written_descendants m) \<Longrightarrow> well_written k"
  by (induction m) auto

lemma simple_leaf_text:
  "simple_leaf k \<Longrightarrow> reads_as ns k c \<Longrightarrow>
   \<exists>s. mtext k = Some s \<and> etext c = Some s"
  by (cases k) (auto simp: simple_leaf_def split: option.splits)

lemma field_ok_both:
  assumes "well_written d" and "name_ok name" and "field_ok name d" and "reads_as ns d e"
  shows "\<exists>s c. re_search_elem name (inner d) = Some s \<and>
               find_child (qualify ns name) e = Some c \<and> etext c = Some s"
proof -
  from assms(3) obtain k where k: "List.find (\<lambda>k. mname k = name) (written_descendants d) = Some k"
    "List.find (\<lambda>k. mname k = name) (mkids d) = Some k" "simple_leaf k"
    by (auto simp: field_ok_def split: option.splits)
  from reads_as_find [OF reads_as_kids [OF assms(4)], of name] k(2)
  obtain c where c: "find_child (qualify ns name) e = Some c" "reads_as ns k c"
    by (auto simp: find_child_def option_rel_Some1)
  from simple_leaf_text [OF k(3) c(2)] obtain s where s: "mtext k = Some s" "etext c = Some s"
    by blast
  from search_inner_some [OF assms(1,2) k(3) k(1)] s
  have "re_search_elem name (inner d) = Some s"
    by (simp add: opt_text_def)
  with c s show ?thesis by blast
qed

lemma field_absent_both:
  assumes "well_written d" and "name_ok name" and "field_absent name d" and "reads_as ns d e"
  shows "re_search_elem name (inner d) = None \<and> find_child (qualify ns name) e = None"
proof -
  have "\<forall>k \<in> set (mkids d). mname k \<noteq> name"
    using assms(3) kids_descendants [of d] by (auto simp: field_absent_def)
  then have "List.find (\<lambda>k. mname k = name) (mkids d) = None"
    by (simp add: find_None_iff)
  with reads_as_find [OF reads_as_kids [OF assms(4)], of name]
  have "find_child (qualify ns name) e = None"
    by (simp add: find_child_def)
  moreover have "re_search_elem name (inner d) = None"
    using assms by (intro search_inner_none) (auto simp: field_absent_def)
  ultimately show ?thesis by simp
qed

lemma field_both:
  assumes "well_written d" and "name_ok name" and "field_ok name d \<or> field_absent name d"
    and "reads_as ns d e"
  shows "(re_search_elem name (inner d) = None \<and> find_child (qualify ns name) e = None) \<or>
         (\<exists>s c. re_search_elem name (inner d) = Some s \<and>
                 find_child (qualify ns name) e = Some c \<and> etext c = Some s)"
  using assms field_ok_both field_absent_both by blast

lemma entry_step:
  assumes "well_written d" and "entry_ok d" and "reads_as ns d e"
    and "\<And>acc. pom_loop ns (filter (\<lambda>e. find_child (qualify ns ''version'') e \<noteq> None) es) acc =
               Inr (blocks_loop bs acc)"
  shows "pom_loop ns (filter (\<lambda>e. find_child (qualify ns ''version'') e \<noteq> None) (e # es)) acc =
         Inr (blocks_loop (inner d # bs) acc)"
proof -
  have ok: "field_ok ''groupId'' d \<or> field_absent ''groupId'' d"
    "field_ok ''artifactId'' d \<or> field_absent ''artifactId'' d"
    "field_ok ''version'' d \<or> field_absent ''version'' d"
    using assms(2) by (simp_all add: entry_ok_def)
  note g = field_both [OF assms(1) name_ok_literals(2) ok(1) assms(3)]
  note a = field_both [OF assms(1) name_ok_literals(3) ok(2) assms(3)]
  note v = field_both [OF assms(1) name_ok_literals(4) ok(3) assms(3)]
  from v show ?thesis
  proof (elim disjE exE conjE)
    assume "re_search_elem ''version'' (inner d) = None"
      "find_child (qualify ns ''version'') e = None"
    then show ?thesis
      using assms(4) by (simp split: option.splits)
  next
    fix sv cv
    assume sv: "re_search_elem ''version'' (inner d) = Some sv"
      "find_child (qualify ns ''version'') e = Some cv" "etext cv = Some sv"
    from g a show ?thesis
      using sv assms(4)
      by (elim disjE exE conjE) (simp_all add: pom_entry_def strip_text_def)
  qed
qed

lemma loops_agree:
  "list_all2 (\<lambda>d e. well_written d \<and> entry_ok d \<and> reads_as ns d e) ds es \<Longrightarrow>
   pom_loop ns (filter (\<lambda>e. find_child (qualify ns ''version'') e \<noteq> None) es) acc =
   Inr (blocks_loop (map inner ds) acc)"
proof (induction ds es arbitrary: acc rule: list_all2_induct)
  case Nil
  show ?case by simp
next
  case (Cons d ds e es)
  have "pom_loop ns (filter (\<lambda>e. find_child (qualify ns ''version'') e \<noteq> None) (e # es)) acc =
        Inr (blocks_loop (inner d # map inner ds) acc)"
    using Cons.hyps(1) by (intro entry_step [where d = d] Cons.IH) auto
  then show ?case by simp
qed

lemma list_all2_left:
  "list_all2 R xs ys \<Longrightarrow> \<forall>x \<in> set xs. P x \<Longrightarrow> list_all2 (\<lambda>x y. P x \<and> R x y) xs ys"
  by (induction xs ys rule: list_all2_induct) auto

lemma strip_nonempty: "c \<in> set s \<Longrightarrow> \<not> isspace c \<Longrightarrow> strip s \<noteq> []"
proof -
  assume c: "c \<in> set s" "\<not> isspace c"
  then have ne: "dropWhile isspace s \<noteq> []"
    by (auto simp: dropWhile_eq_Nil_conv)
  then have "\<not> isspace (hd (dropWhile isspace s))"
    by (rule hd_dropWhile)
  moreover have "hd (dropWhile isspace s) \<in> set (rev (dropWhile isspace s))"
    using ne by simp
  ultimately have "dropWhile isspace (rev (dropWhile isspace s)) \<noteq> []"
    by (auto simp: dropWhile_eq_Nil_conv simp del: set_rev)
  then show ?thesis
    by (simp add: strip_def)
qed

lemma render_has_lt: "CHR ''<'' \<in> set (render m)"
  by (cases m) auto

lemma document_nonempty: "prolog @ render m \<noteq> [] \<and> strip (prolog @ render m) \<noteq> []"
proof -
  have "CHR ''<'' \<in> set (prolog @ render m)"
    using render_has_lt [of m] by simp
  moreover have "\<not> isspace (CHR ''<'')"
    by (simp add: isspace_def)
  ultimately have "strip (prolog @ render m) \<noteq> []"
    by (rule strip_nonempty)
  moreover have "render m \<noteq> []"
    using render_has_lt [of m] by auto
  ultimately show ?thesis by simp
qed

lemma findall_document:
  assumes "descriptor_ok m" and "misc_ok prolog"
  shows "re_findall_dependency (prolog @ render m) =
         map inner (filter (\<lambda>d. mname d = ''dependency'') (written_descendants m))"
proof -
  have "entries_flat m"
    using assms(1) by (auto simp: descriptor_ok_def entries_flat_def entry_ok_def)
  with assms(1) have "findall_scan None (render m @ []) =
      map inner (filter (\<lambda>d. mname d = ''dependency'') (m # written_descendants m)) @
      findall_scan None []"
    by (intro scan_out_tree) (simp_all add: descriptor_ok_def)
  moreover have "findall_scan None (prolog @ render m) = findall_scan None (render m)"
    by (rule scan_out_misc [OF assms(2)])
  ultimately show ?thesis
    using assms(1) by (simp add: re_findall_dependency_def descriptor_ok_def)
qed

text \<open>
  Claim C2, amended. The two strategies do not agree on every well-formed descriptor: the pattern
  extractor stores an entry only when its version pattern matches, the structural one
  stores an entry without version element under the value \<^verbatim>\<open>None\<close>. For a descriptor
  that is \<open>descriptor_ok\<close> (namespace declaration, attributes, prolog and comments
  included) and that the parser reads as its tree, the pattern extractor returns the
  snapshot that the structural loop builds from the entries that have a version element;
  hence, when every entry has a version element, the two extractors return the same
  snapshot.
\<close>

theorem strategies_agree_on_versioned_entries:
  assumes "descriptor_ok m" and "misc_ok prolog"
    and "fromstring (prolog @ render m) = Some tree"
    and "namespace = map_of (nsmap tree) None"
    and "reads_as namespace m tree"
  shows "pom_loop namespace
           (filter (\<lambda>d. find_child (qualify namespace ''version'') d \<noteq> None)
              (findall (qualify namespace ''dependency'') tree)) [] =
         Inr (parse_dependency_blocks (Some (prolog @ render m))) \<and>
         ((\<forall>d \<in> set (findall (qualify namespace ''dependency'') tree).
              find_child (qualify namespace ''version'') d \<noteq> None) \<longrightarrow>
          parse_pom_dependencies fromstring (Some (prolog @ render m)) =
          Inr (parse_dependency_blocks (Some (prolog @ render m))))"
proof -
  let ?deps = "findall (qualify namespace ''dependency'') tree"
  let ?written = "filter (\<lambda>d. mname d = ''dependency'') (written_descendants m)"
  have "list_all2 (reads_as namespace) ?written ?deps"
    unfolding findall_def
    by (intro reads_as_filter reads_as_descendants assms(5))
  moreover have "\<forall>d \<in> set ?written. well_written d \<and> entry_ok d"
    using assms(1) well_written_descendants [of m]
    by (auto simp: descriptor_ok_def)
  ultimately have "list_all2 (\<lambda>d e. (well_written d \<and> entry_ok d) \<and> reads_as namespace d e)
                     ?written ?deps"
    by (rule list_all2_left)
  then have "list_all2 (\<lambda>d e. well_written d \<and> entry_ok d \<and> reads_as namespace d e)
                     ?written ?deps"
    by (simp add: conj_assoc)
  then have loop: "pom_loop namespace
                     (filter (\<lambda>d. find_child (qualify namespace ''version'') d \<noteq> None) ?deps) [] =
                   Inr (blocks_loop (map inner ?written) [])"
    by (rule loops_agree)
  have blocks: "parse_dependency_blocks (Some (prolog @ render m)) =
                blocks_loop (map inner ?written) []"
    using document_nonempty [of prolog m] findall_document [OF assms(1,2)]
    by (auto simp: parse_dependency_blocks_def)
  have struct: "parse_pom_dependencies fromstring (Some (prolog @ render m)) =
                pom_loop namespace ?deps []"
    using document_nonempty [of prolog m] assms(3,4)
    by (auto simp: parse_pom_parsed)
  show ?thesis
  proof (intro conjI impI)
    show "pom_loop namespace
            (filter (\<lambda>d. find_child (qualify namespace ''version'') d \<noteq> None) ?deps) [] =
          Inr (parse_dependency_blocks (Some (prolog @ render m)))"
      using loop blocks by simp
    assume "\<forall>d \<in> set ?deps. find_child (qualify namespace ''version'') d \<noteq> None"
    then have "filter (\<lambda>d. find_child (qualify namespace ''version'') d \<noteq> None) ?deps = ?deps"
      by (simp add: filter_id_conv)
    with loop blocks struct
    show "parse_pom_dependencies fromstring (Some (prolog @ render m)) =
          Inr (parse_dependency_blocks (Some (prolog @ render m)))"
      by simp
  qed
qed

theorem strategies_agree_on_versioned_entries_witness:
  "example_pom_prolog @ render example_pom_markup = example_pom_text \<and>
   parse_pom_dependencies (\<lambda>t. if t = example_pom_text then Some example_pom_tree else None)
     (Some example_pom_text) =
   Inr (parse_dependency_blocks (Some example_pom_text)) \<and>
   parse_dependency_blocks (Some example_pom_text) =
     [(''junit:junit'', Some ''4.13''), (''g:a'', Some ''1.0'')]"
proof -
  have r: "example_pom_prolog @ render example_pom_markup = example_pom_text"
    by (simp add: example_pom_defs opt_text_def)
  have d: "descriptor_ok example_pom_markup"
    by (simp add: example_pom_defs descriptor_ok_def name_ok_def extra_ok_def isspace_def
          opt_text_def entry_ok_def entry_shape_def dep_free_def field_ok_def field_absent_def
          simple_leaf_def plain_text_def)
  have p: "misc_ok example_pom_prolog"
    by (simp add: example_pom_defs)
  have n: "map_of (nsmap example_pom_tree) None = Some pom_uri"
    by (simp add: example_pom_tree_def pom_elem_def)
  have t: "reads_as (Some pom_uri) example_pom_markup example_pom_tree"
    by (simp add: example_pom_defs qualify_def plain_text_def)
  have v: "\<forall>d \<in> set (findall (qualify (Some pom_uri) ''dependency'') example_pom_tree).
             find_child (qualify (Some pom_uri) ''version'') d \<noteq> None"
    by (simp add: example_pom_defs findall_def find_child_def qualify_def)
  have b: "parse_dependency_blocks (Some example_pom_text) =
     [(''junit:junit'', Some ''4.13''), (''g:a'', Some ''1.0'')]"
    by (simp add: example_pom_defs parse_dependency_blocks_def
          re_findall_dependency_def match_elem_def strip_def isspace_def)
  from strategies_agree_on_versioned_entries [of example_pom_markup example_pom_prolog
      "\<lambda>t. if t = example_pom_text then Some example_pom_tree else None" example_pom_tree
      "Some pom_uri"] d p n t v r b
  show ?thesis
    by simp
qed

text \<open>
  The conditions of \<open>descriptor_ok\<close> are needed. With an attribute in the start tag of a
  dependency element the pattern extractor misses the entry, with an entity reference in
  a version it stores the reference unresolved, and with an exclusion in front of an
  entry's own identifiers it takes the exclusion's identifiers.
\<close>

lemma conditions_needed:
  "parse_pom_dependencies
     (\<lambda>_. Some (project_elem
        [dependency_elem [leaf ''groupId'' (Some ''g''), leaf ''artifactId'' (Some ''a''),
                          leaf ''version'' (Some ''1.0'')]]))
     (Some (''<project><dependencies><dependency optional='' @ dq @ ''true'' @ dq @ ''><groupId>g</groupId><artifactId>a</artifactId><version>1.0</version></dependency></dependencies></project>''))
   = Inr [(''g:a'', Some ''1.0'')] \<and>
   parse_dependency_blocks
     (Some (''<project><dependencies><dependency optional='' @ dq @ ''true'' @ dq @ ''><groupId>g</groupId><artifactId>a</artifactId><version>1.0</version></dependency></dependencies></project>''))
   = [] \<and>
   parse_pom_dependencies
     (\<lambda>_. Some (project_elem
        [dependency_elem [leaf ''groupId'' (Some ''g''), leaf ''artifactId'' (Some ''a''),
                          leaf ''version'' (Some ''1&2'')]]))
     (Some ''<project><dependencies><dependency><groupId>g</groupId><artifactId>a</artifactId><version>1&amp;2</version></dependency></dependencies></project>'')
   = Inr [(''g:a'', Some ''1&2'')] \<and>
   parse_dependency_blocks
     (Some ''<project><dependencies><dependency><groupId>g</groupId><artifactId>a</artifactId><version>1&amp;2</version></dependency></dependencies></project>'')
   = [(''g:a'', Some ''1&amp;2'')] \<and>
   parse_pom_dependencies
     (\<lambda>_. Some (project_elem
        [dependency_elem
           [Element ''exclusions'' [] None
              [Element ''exclusion'' [] None
                 [leaf ''groupId'' (Some ''x''), leaf ''artifactId'' (Some ''y'')] None] None,
            leaf ''groupId'' (Some ''g''), leaf ''artifactId'' (Some ''a''),
            leaf ''version'' (Some ''1.0'')]]))
     (Some ''<project><dependencies><dependency><exclusions><exclusion><groupId>x</groupId><artifactId>y</artifactId></exclusion></exclusions><groupId>g</groupId><artifactId>a</artifactId><version>1.0</version></dependency></dependencies></project>'')
   = Inr [(''g:a'', Some ''1.0'')] \<and>
   parse_dependency_blocks
     (Some ''<project><dependencies><dependency><exclusions><exclusion><groupId>x</groupId><artifactId>y</artifactId></exclusion></exclusions><groupId>g</groupId><artifactId>a</artifactId><version>1.0</version></dependency></dependencies></project>'')
   = [(''x:y'', Some ''1.0'')]"
  by (simp add: parse_pom_dependencies_def project_elem_def dependency_elem_def leaf_def
        findall_def find_child_def qualify_def pom_entry_def strip_text_def strip_def
        isspace_def parse_dependency_blocks_def re_findall_dependency_def match_elem_def dq_def)

text \<open>
  Claim C2 as stated fails on the descriptor \<open>example_text_before\<close>, whose second
  entry has no version element: the structural extractor keeps the entry, the pattern
  extractor drops it.
\<close>

theorem strategies_differ_without_version:
  "parse_pom_dependencies example_parser (Some example_text_before) =
     Inr [(''g:a'', Some ''1.0''), (''g:b'', None)] \<and>
   parse_dependency_blocks (Some example_text_before) = [(''g:a'', Some ''1.0'')] \<and>
   parse_pom_dependencies example_parser (Some example_text_before) \<noteq>
     Inr (parse_dependency_blocks (Some example_text_before))"
proof -
  have a: "parse_pom_dependencies example_parser (Some example_text_before) =
     Inr [(''g:a'', Some ''1.0''), (''g:b'', None)]"
    by (simp add: run_defs example_defs)
  have b: "parse_dependency_blocks (Some example_text_before) = [(''g:a'', Some ''1.0'')]"
    by (simp add: example_text_before_def parse_dependency_blocks_def
          re_findall_dependency_def match_elem_def strip_def isspace_def)
  from a b show ?thesis by simp
qed

end
